theory Spec2Isabelle
  imports Complex_Main "HOL-Library.Word" "HOL-Library.Log_Nat"
begin

unbundle bit_operations_syntax

section \<open>WS2812 LED strip over SPI: a shallow embedding of \<open>led_controller.py\<close>\<close>

text \<open>
  The embedding follows the source class by class.  Objects are records, a method takes
  the object and returns it updated.  A method that can raise returns a pair: the
  exception (if any) and the object as it is afterwards, so that what an exception leaves
  behind is part of the model.  A constructor that can raise returns a sum.
\<close>

subsection \<open>Exceptions and bytes\<close>

datatype error = IndexError | ValueError | OverflowError

type_synonym u8 = "8 word"

subsection \<open>Python lists\<close>

text \<open>\<open>[x] * n\<close>: the list is empty when \<open>n\<close> is negative.\<close>

definition py_repeat :: "'a \<Rightarrow> int \<Rightarrow> 'a list" where
  "py_repeat x n = replicate (nat n) x"

text \<open>\<open>xs[i]\<close> and \<open>xs[i] = v\<close>: a negative index counts from the end, an index outside
  \<open>-len(xs) \<le> i < len(xs)\<close> raises \<open>IndexError\<close>.\<close>

definition py_getitem :: "'a list \<Rightarrow> int \<Rightarrow> error + 'a" where
  "py_getitem xs i =
     (let n = int (length xs); j = (if i < 0 then i + n else i) in
      if 0 \<le> j \<and> j < n then Inr (xs ! nat j) else Inl IndexError)"

definition py_setitem :: "'a list \<Rightarrow> int \<Rightarrow> 'a \<Rightarrow> error + 'a list" where
  "py_setitem xs i v =
     (let n = int (length xs); j = (if i < 0 then i + n else i) in
      if 0 \<le> j \<and> j < n then Inr (xs[nat j := v]) else Inl IndexError)"

text \<open>\<open>xs.pop(0)\<close>: the first element and the rest; \<open>IndexError\<close> on an empty list.\<close>

definition pop0 :: "'a list \<Rightarrow> error + 'a \<times> 'a list" where
  "pop0 xs = (case xs of [] \<Rightarrow> Inl IndexError | x # rest \<Rightarrow> Inr (x, rest))"

subsection \<open>Python floats\<close>

text \<open>
  A Python float is an IEEE 754 binary64 value: a finite number (given here by its exact
  rational value), an infinity or NaN.  The two zeros are not told apart: they compare
  equal, and nothing the program does with the brightness depends on the sign of a zero.

  \<open>pow2 e\<close> is the power of two with exponent \<open>e\<close>; \<open>ilog2 x\<close>, for \<open>x > 0\<close>, is the
  exponent \<open>e\<close> with \<open>pow2 e \<le> x < pow2 (e + 1)\<close>.  \<open>fl_round\<close> is the rounding every
  arithmetic operation ends with: to the nearest multiple of \<open>pow2 q\<close>, where
  \<open>q = max (e - 52) (-1074)\<close> (a 53-bit significand, gradual underflow), a tie to the even
  multiple, and to an infinity when the rounded value reaches \<open>pow2 1024\<close>.
\<close>

datatype pyfloat = Fin rat | PosInf | NegInf | NaN

definition pow2 :: "int \<Rightarrow> rat" where
  "pow2 e = (if 0 \<le> e then 2 ^ nat e else 1 / 2 ^ nat (- e))"

definition ilog2 :: "rat \<Rightarrow> int" where
  "ilog2 x = (if 1 \<le> x then bitlen \<lfloor>x\<rfloor> - 1 else - bitlen (\<lceil>1 / x\<rceil> - 1))"

definition round_half_even :: "rat \<Rightarrow> int" where
  "round_half_even y =
     (let f = \<lfloor>y\<rfloor>; d = y - of_int f in
      if d < 1 / 2 then f else if 1 / 2 < d then f + 1 else if even f then f else f + 1)"

definition fl_round :: "rat \<Rightarrow> pyfloat" where
  "fl_round x =
     (if x = 0 then Fin 0 else
      let a = \<bar>x\<bar>;
          q = max (ilog2 a - 52) (- 1074);
          v = of_int (round_half_even (a / pow2 q)) * pow2 q
      in if pow2 1024 \<le> v then (if 0 < x then PosInf else NegInf)
         else Fin (if 0 < x then v else - v))"

text \<open>\<open>a < b\<close> on floats: false whenever one side is NaN.\<close>

fun float_lt :: "pyfloat \<Rightarrow> pyfloat \<Rightarrow> bool" where
  "float_lt NaN _ = False"
| "float_lt _ NaN = False"
| "float_lt (Fin x) (Fin y) = (x < y)"
| "float_lt NegInf b = (b \<noteq> NegInf)"
| "float_lt a PosInf = (a \<noteq> PosInf)"
| "float_lt PosInf _ = False"
| "float_lt _ NegInf = False"

text \<open>The builtins \<open>min(a, b)\<close> and \<open>max(a, b)\<close>: the first argument, unless the second
  is smaller (\<open>min\<close>) or greater (\<open>max\<close>).\<close>

definition py_min :: "pyfloat \<Rightarrow> pyfloat \<Rightarrow> pyfloat" where
  "py_min a b = (if float_lt b a then b else a)"

definition py_max :: "pyfloat \<Rightarrow> pyfloat \<Rightarrow> pyfloat" where
  "py_max a b = (if float_lt a b then b else a)"

text \<open>\<open>a * b\<close> on floats.\<close>

fun float_mul :: "pyfloat \<Rightarrow> pyfloat \<Rightarrow> pyfloat" where
  "float_mul NaN _ = NaN"
| "float_mul _ NaN = NaN"
| "float_mul (Fin x) (Fin y) = fl_round (x * y)"
| "float_mul (Fin x) PosInf = (if x = 0 then NaN else if 0 < x then PosInf else NegInf)"
| "float_mul (Fin x) NegInf = (if x = 0 then NaN else if 0 < x then NegInf else PosInf)"
| "float_mul PosInf (Fin y) = (if y = 0 then NaN else if 0 < y then PosInf else NegInf)"
| "float_mul NegInf (Fin y) = (if y = 0 then NaN else if 0 < y then NegInf else PosInf)"
| "float_mul PosInf PosInf = PosInf"
| "float_mul PosInf NegInf = NegInf"
| "float_mul NegInf PosInf = NegInf"
| "float_mul NegInf NegInf = PosInf"

text \<open>The conversion of an \<open>int\<close> operand to float (as in \<open>int * float\<close>): correctly
  rounded, \<open>OverflowError\<close> when the integer is too large.\<close>

definition int_to_float :: "int \<Rightarrow> error + pyfloat" where
  "int_to_float c = (case fl_round (of_int c) of Fin x \<Rightarrow> Inr (Fin x) | _ \<Rightarrow> Inl OverflowError)"

definition int_times_float :: "int \<Rightarrow> pyfloat \<Rightarrow> error + pyfloat" where
  "int_times_float c b =
     (case int_to_float c of Inl e \<Rightarrow> Inl e | Inr f \<Rightarrow> Inr (float_mul f b))"

text \<open>
  The cast of a float64 array element to \<open>uint8\<close> (\<open>dtype=np.uint8\<close>): the fraction is
  dropped (truncation toward zero).  C defines the conversion only when the truncated
  value is one of 0 to 255; for other finite values, the infinities and NaN numpy's result
  depends on the platform.  The model takes the low eight bits of the truncated value
  there, and 0 for an infinity and for NaN; the theorems below that speak of transmitted
  channel bytes are stated for inputs on which the cast is defined.
\<close>

definition rat_trunc :: "rat \<Rightarrow> int" where
  "rat_trunc x = (if 0 \<le> x then \<lfloor>x\<rfloor> else \<lceil>x\<rceil>)"

fun to_uint8 :: "pyfloat \<Rightarrow> u8" where
  "to_uint8 (Fin x) = word_of_int (rat_trunc x)"
| "to_uint8 _ = 0"

subsection \<open>The numpy operations the driver uses\<close>

text \<open>\<open>np.zeros(n, dtype=np.uint8)\<close> and \<open>np.full(n, v, dtype=np.uint8)\<close>: a negative
  dimension raises \<open>ValueError\<close>.\<close>

definition np_zeros :: "int \<Rightarrow> error + u8 list" where
  "np_zeros n = (if n < 0 then Inl ValueError else Inr (replicate (nat n) 0))"

definition np_full :: "int \<Rightarrow> u8 \<Rightarrow> error + u8 list" where
  "np_full n v = (if n < 0 then Inl ValueError else Inr (replicate (nat n) v))"

text \<open>\<open>a[start:] = rhs\<close> on one-dimensional arrays, \<open>start \<ge> 0\<close>: the target is the part of
  \<open>a\<close> from \<open>start\<close> on (empty when \<open>start\<close> is beyond the end).  The right-hand side has
  to have the target's length, or length one (it is then broadcast); anything else raises
  \<open>ValueError\<close> before a single byte is copied.\<close>

definition assign_from :: "nat \<Rightarrow> u8 list \<Rightarrow> u8 list \<Rightarrow> error + u8 list" where
  "assign_from start a rhs =
     (let m = length a - start in
      if length rhs = m then Inr (take start a @ rhs)
      else if length rhs = 1 then Inr (take start a @ replicate m (hd rhs))
      else Inl ValueError)"

text \<open>\<open>buffer.ravel()\<close>: the rows of a two-dimensional array one after the other (a
  one-dimensional array is a single row).\<close>

definition ravel :: "u8 list list \<Rightarrow> u8 list" where
  "ravel buffer = concat buffer"

text \<open>\<open>np.unpackbits\<close>: every byte becomes eight array elements 0 or 1, the most
  significant bit first.\<close>

definition byte_bits :: "u8 \<Rightarrow> u8 list" where
  "byte_bits w = map (\<lambda>k. if bit w (7 - k) then 1 else 0) [0..<8]"

definition unpackbits :: "u8 list \<Rightarrow> u8 list" where
  "unpackbits xs = concat (map byte_bits xs)"

subsection \<open>\<open>WS2812SpiDriver\<close>\<close>

definition LED_ZERO :: u8 where "LED_ZERO = 0b11000000"
definition LED_ONE :: u8 where "LED_ONE = 0b11111100"
definition PREAMBLE :: nat where "PREAMBLE = 42"

text \<open>The SPI device is modelled by what it has been given to send: \<open>sent\<close> lists the
  argument of every \<open>writebytes2\<close> call, oldest first.  Opening the device and the
  transmission itself are taken to succeed.\<close>

record driver =
  led_count :: int
  clear_buffer :: "u8 list"
  buffer :: "u8 list"
  sent :: "u8 list list"

definition WS2812SpiDriver_init :: "int \<Rightarrow> int \<Rightarrow> int \<Rightarrow> error + driver" where
  "WS2812SpiDriver_init spi_bus spi_device n =
     (case np_zeros (int PREAMBLE + n * 24) of
        Inl e \<Rightarrow> Inl e
      | Inr cb0 \<Rightarrow>
     (case np_full (n * 24) LED_ZERO of
        Inl e \<Rightarrow> Inl e
      | Inr fill \<Rightarrow>
     (case assign_from PREAMBLE cb0 fill of
        Inl e \<Rightarrow> Inl e
      | Inr cb \<Rightarrow>
     (case np_zeros (int PREAMBLE + n * 24) of
        Inl e \<Rightarrow> Inl e
      | Inr b \<Rightarrow>
          Inr \<lparr>led_count = n, clear_buffer = cb, buffer = b, sent = []\<rparr>))))"

text \<open>\<open>np.where(color_bits == 1, LED_ONE, LED_ZERO)\<close>.\<close>

definition symbols :: "u8 list \<Rightarrow> u8 list" where
  "symbols color_bits = map (\<lambda>b. if b = 1 then LED_ONE else LED_ZERO) color_bits"

definition WS2812SpiDriver_write :: "driver \<Rightarrow> u8 list list \<Rightarrow> error option \<times> driver" where
  "WS2812SpiDriver_write d buf =
     (let flattened_colors = ravel buf;
          color_bits = unpackbits flattened_colors
      in case assign_from PREAMBLE (buffer d) (symbols color_bits) of
           Inl e \<Rightarrow> (Some e, d)
         | Inr b \<Rightarrow> (None, d\<lparr>buffer := b, sent := sent d @ [b]\<rparr>))"

definition WS2812SpiDriver_clear :: "driver \<Rightarrow> driver" where
  "WS2812SpiDriver_clear d = d\<lparr>sent := sent d @ [clear_buffer d]\<rparr>"

definition WS2812SpiDriver_get_led_count :: "driver \<Rightarrow> int" where
  "WS2812SpiDriver_get_led_count d = led_count d"

text \<open>A caller's use of a driver: any sequence of \<open>write\<close> and \<open>clear\<close> calls, going on
  after a call that raised.\<close>

datatype driver_call = Write "u8 list list" | Clear

fun driver_step :: "driver \<Rightarrow> driver_call \<Rightarrow> driver" where
  "driver_step d (Write buf) = snd (WS2812SpiDriver_write d buf)"
| "driver_step d Clear = WS2812SpiDriver_clear d"

definition driver_run :: "driver \<Rightarrow> driver_call list \<Rightarrow> driver" where
  "driver_run d cs = foldl driver_step d cs"

text \<open>Bit \<open>j\<close> of a byte sequence, counting from the most significant bit of the first
  byte.\<close>

definition stream_bit :: "u8 list \<Rightarrow> nat \<Rightarrow> bool" where
  "stream_bit xs j = bit (xs ! (j div 8)) (7 - j mod 8)"

text \<open>What every reachable driver satisfies.\<close>

definition driver_ok :: "driver \<Rightarrow> bool" where
  "driver_ok d \<longleftrightarrow>
     0 \<le> led_count d \<and>
     length (buffer d) = PREAMBLE + nat (led_count d) * 24 \<and>
     take PREAMBLE (buffer d) = replicate PREAMBLE 0 \<and>
     clear_buffer d = replicate PREAMBLE 0 @ replicate (nat (led_count d) * 24) LED_ZERO"


subsection \<open>\<open>Color\<close> and \<open>Strip\<close>\<close>

text \<open>\<open>Color\<close> is the named tuple \<open>(r, g, b)\<close>; the channels are Python integers.\<close>

datatype color = Color (color_r: int) (color_g: int) (color_b: int)

record strip =
  strip_led_count :: int
  brightness :: pyfloat
  pixels :: "color list"
  backend :: driver

definition Strip_init :: "driver \<Rightarrow> strip" where
  "Strip_init drv =
     (let n = WS2812SpiDriver_get_led_count drv in
      \<lparr>strip_led_count = n, brightness = Fin 1, pixels = py_repeat (Color 0 0 0) n,
       backend = drv\<rparr>)"

definition get_strip :: "driver \<Rightarrow> strip" where
  "get_strip drv = Strip_init drv"

definition Strip_set_pixel_color :: "strip \<Rightarrow> int \<Rightarrow> color \<Rightarrow> error option \<times> strip" where
  "Strip_set_pixel_color s i c =
     (case py_setitem (pixels s) i c of
        Inl e \<Rightarrow> (Some e, s)
      | Inr ps \<Rightarrow> (None, s\<lparr>pixels := ps\<rparr>))"

text \<open>The array \<open>show\<close> builds: one row per pixel, in pixel order, holding the products
  \<open>pixel.g * brightness\<close>, \<open>pixel.r * brightness\<close>, \<open>pixel.b * brightness\<close>; then the cast
  of the whole array to \<open>uint8\<close>.\<close>

definition pixel_row :: "pyfloat \<Rightarrow> color \<Rightarrow> error + pyfloat list" where
  "pixel_row br pixel =
     (case int_times_float (color_g pixel) br of Inl e \<Rightarrow> Inl e | Inr x \<Rightarrow>
     (case int_times_float (color_r pixel) br of Inl e \<Rightarrow> Inl e | Inr y \<Rightarrow>
     (case int_times_float (color_b pixel) br of Inl e \<Rightarrow> Inl e | Inr z \<Rightarrow>
        Inr [x, y, z])))"

fun pixel_rows :: "pyfloat \<Rightarrow> color list \<Rightarrow> error + pyfloat list list" where
  "pixel_rows br [] = Inr []"
| "pixel_rows br (pixel # ps) =
     (case pixel_row br pixel of Inl e \<Rightarrow> Inl e | Inr row \<Rightarrow>
     (case pixel_rows br ps of Inl e \<Rightarrow> Inl e | Inr rows \<Rightarrow> Inr (row # rows)))"

definition show_buffer :: "strip \<Rightarrow> error + u8 list list" where
  "show_buffer s =
     (case pixel_rows (brightness s) (pixels s) of
        Inl e \<Rightarrow> Inl e
      | Inr rows \<Rightarrow> Inr (map (map to_uint8) rows))"

definition Strip_show :: "strip \<Rightarrow> error option \<times> strip" where
  "Strip_show s =
     (case show_buffer s of
        Inl e \<Rightarrow> (Some e, s)
      | Inr buf \<Rightarrow>
          (case WS2812SpiDriver_write (backend s) buf of
             (e, drv) \<Rightarrow> (e, s\<lparr>backend := drv\<rparr>)))"

definition Strip_clear :: "strip \<Rightarrow> strip" where
  "Strip_clear s =
     s\<lparr>pixels := py_repeat (Color 0 0 0) (strip_led_count s),
       backend := WS2812SpiDriver_clear (backend s)\<rparr>"

definition Strip_set_brightness :: "strip \<Rightarrow> pyfloat \<Rightarrow> strip" where
  "Strip_set_brightness s b = s\<lparr>brightness := py_max (py_min b (Fin 1)) (Fin 0)\<rparr>"

definition Strip_num_pixels :: "strip \<Rightarrow> int" where
  "Strip_num_pixels s = strip_led_count s"

definition Strip_get_brightness :: "strip \<Rightarrow> pyfloat" where
  "Strip_get_brightness s = brightness s"

definition Strip_set_all_pixels :: "strip \<Rightarrow> color \<Rightarrow> strip" where
  "Strip_set_all_pixels s c = s\<lparr>pixels := py_repeat c (strip_led_count s)\<rparr>"

text \<open>A caller's use of a strip: any sequence of calls of its public methods, going on
  after a call that raised.\<close>

datatype strip_call =
  SetPixelColor int color | Show | ClearStrip | SetBrightness pyfloat | SetAllPixels color

fun strip_step :: "strip \<Rightarrow> strip_call \<Rightarrow> strip" where
  "strip_step s (SetPixelColor i c) = snd (Strip_set_pixel_color s i c)"
| "strip_step s Show = snd (Strip_show s)"
| "strip_step s ClearStrip = Strip_clear s"
| "strip_step s (SetBrightness b) = Strip_set_brightness s b"
| "strip_step s (SetAllPixels c) = Strip_set_all_pixels s c"

definition strip_run :: "strip \<Rightarrow> strip_call list \<Rightarrow> strip" where
  "strip_run s cs = foldl strip_step s cs"

text \<open>What every reachable strip satisfies, and a colour whose channels are 8-bit values.\<close>

definition strip_ok :: "strip \<Rightarrow> bool" where
  "strip_ok s \<longleftrightarrow>
     int (length (pixels s)) = strip_led_count s \<and>
     led_count (backend s) = strip_led_count s \<and>
     driver_ok (backend s)"

definition valid_color :: "color \<Rightarrow> bool" where
  "valid_color c \<longleftrightarrow>
     0 \<le> color_r c \<and> color_r c \<le> 255 \<and>
     0 \<le> color_g c \<and> color_g c \<le> 255 \<and>
     0 \<le> color_b c \<and> color_b c \<le> 255"

subsection \<open>The rotation effect\<close>

text \<open>The inner loop of \<open>white_rotate\<close>,
  \<open>for i in range(led_count): strip.set_pixel_color(i, pattern[i])\<close>, over the indices still
  to do.\<close>

fun set_pattern :: "strip \<Rightarrow> color list \<Rightarrow> nat list \<Rightarrow> error option \<times> strip" where
  "set_pattern s pattern [] = (None, s)"
| "set_pattern s pattern (i # js) =
     (case py_getitem pattern (int i) of
        Inl e \<Rightarrow> (Some e, s)
      | Inr c \<Rightarrow>
          (case Strip_set_pixel_color s (int i) c of
             (Some e, s') \<Rightarrow> (Some e, s')
           | (None, s') \<Rightarrow> set_pattern s' pattern js))"

text \<open>The outer loop, by the number of iterations left.  \<open>time.sleep(delay)\<close> is taken as
  a call that returns at once and touches nothing (the delay replaced by a no-op), so
  \<open>delay\<close> plays no part below.\<close>

fun rotate_loop :: "nat \<Rightarrow> int \<Rightarrow> strip \<Rightarrow> color list \<Rightarrow> error option \<times> strip" where
  "rotate_loop 0 n s pattern = (None, s)"
| "rotate_loop (Suc k) n s pattern =
     (case pop0 pattern of
        Inl e \<Rightarrow> (Some e, s)
      | Inr (first, rest) \<Rightarrow>
          (case set_pattern s (rest @ [first]) [0..<nat n] of
             (Some e, s') \<Rightarrow> (Some e, s')
           | (None, s') \<Rightarrow>
               (case Strip_show s' of
                  (Some e, s'') \<Rightarrow> (Some e, s'')
                | (None, s'') \<Rightarrow> rotate_loop k n s'' (rest @ [first]))))"

definition white_rotate :: "strip \<Rightarrow> int option \<Rightarrow> pyfloat \<Rightarrow> error option \<times> strip" where
  "white_rotate s iterations delay =
     (let n = Strip_num_pixels s;
          iters = (case iterations of None \<Rightarrow> n * 5 | Some k \<Rightarrow> k);
          pattern = [Color 255 255 255] @ py_repeat (Color 0 0 0) (n - 1)
      in rotate_loop (nat iters) n s pattern)"

subsection \<open>Scenarios\<close>

text \<open>The end-to-end scenario: a driver for three LEDs, its strip, and the three
  \<open>set_pixel_color\<close> calls that make the pixels red, green and blue.\<close>

definition rgb_strip :: strip where
  "rgb_strip =
     strip_run (get_strip (projr (WS2812SpiDriver_init 0 0 3)))
       [SetPixelColor 0 (Color 255 0 0), SetPixelColor 1 (Color 0 255 0),
        SetPixelColor 2 (Color 0 0 255)]"

section \<open>Properties of the driver\<close>

lemma length_byte_bits [simp]: "length (byte_bits w) = 8"
  by (simp add: byte_bits_def)

lemma length_unpackbits [simp]: "length (unpackbits xs) = 8 * length xs"
  by (induction xs) (simp_all add: unpackbits_def)

lemma length_symbols [simp]: "length (symbols bs) = length bs"
  by (simp add: symbols_def)

lemma nth_byte_bits: "k < 8 \<Longrightarrow> byte_bits w ! k = (if bit w (7 - k) then 1 else 0)"
  unfolding byte_bits_def by (subst nth_map) simp_all

lemma nth_unpackbits:
  "j < 8 * length xs \<Longrightarrow> unpackbits xs ! j = (if stream_bit xs j then 1 else 0)"
proof (induction xs arbitrary: j)
  case Nil
  then show ?case by simp
next
  case (Cons x xs)
  have split: "unpackbits (x # xs) = byte_bits x @ unpackbits xs"
    by (simp add: unpackbits_def)
  show ?case
  proof (cases "j < 8")
    case True
    then show ?thesis
      by (simp add: split nth_append nth_byte_bits stream_bit_def)
  next
    case False
    then obtain i where j: "j = 8 + i" by (metis le_add_diff_inverse not_less)
    with Cons.prems have "i < 8 * length xs" by simp
    then have "unpackbits xs ! i = (if stream_bit xs i then 1 else 0)"
      by (rule Cons.IH)
    moreover have "stream_bit (x # xs) j = stream_bit xs i"
      by (simp add: stream_bit_def j)
    ultimately show ?thesis
      by (simp add: split nth_append j)
  qed
qed

lemma init_ok:
  assumes "WS2812SpiDriver_init bus dev n = Inr d"
  shows "driver_ok d \<and> led_count d = n \<and> sent d = []"
proof -
  have n: "0 \<le> n"
    using assms
    by (auto simp: WS2812SpiDriver_init_def np_zeros_def np_full_def split: if_splits)
  then have "d = \<lparr>led_count = n,
      clear_buffer = replicate PREAMBLE 0 @ replicate (nat n * 24) LED_ZERO,
      buffer = replicate (PREAMBLE + nat n * 24) 0, sent = []\<rparr>"
    using assms
    by (simp add: WS2812SpiDriver_init_def np_zeros_def np_full_def assign_from_def
        nat_add_distrib nat_mult_distrib)
  with n show ?thesis
    by (simp add: driver_ok_def)
qed

lemma init_succeeds:
  "0 \<le> n \<Longrightarrow> \<exists>d. WS2812SpiDriver_init bus dev n = Inr d"
  by (simp add: WS2812SpiDriver_init_def np_zeros_def np_full_def assign_from_def
      nat_add_distrib nat_mult_distrib)

lemma write_match:
  assumes "driver_ok d" and "length (ravel buf) = nat (led_count d) * 3"
  shows "WS2812SpiDriver_write d buf =
    (None, d\<lparr>buffer := replicate PREAMBLE 0 @ symbols (unpackbits (ravel buf)),
            sent := sent d @ [replicate PREAMBLE 0 @ symbols (unpackbits (ravel buf))]\<rparr>)"
  using assms by (simp add: WS2812SpiDriver_write_def driver_ok_def assign_from_def Let_def)

lemma write_mismatch:
  assumes "driver_ok d" and "length (ravel buf) \<noteq> nat (led_count d) * 3"
  shows "WS2812SpiDriver_write d buf = (Some ValueError, d)"
proof -
  let ?rhs = "symbols (unpackbits (ravel buf))"
  have "length ?rhs = 8 * length (ravel buf)" by simp
  then have "length ?rhs \<noteq> 1" by presburger
  moreover have "length ?rhs \<noteq> length (buffer d) - PREAMBLE"
    using assms by (simp add: driver_ok_def)
  ultimately show ?thesis
    by (simp add: WS2812SpiDriver_write_def assign_from_def Let_def)
qed

lemma write_ok: "driver_ok d \<Longrightarrow> driver_ok (snd (WS2812SpiDriver_write d buf))"
proof (cases "length (ravel buf) = nat (led_count d) * 3")
  case True
  assume "driver_ok d"
  from write_match [OF this True] \<open>driver_ok d\<close> show ?thesis
    by (simp add: driver_ok_def True)
next
  case False
  assume "driver_ok d"
  from write_mismatch [OF this False] \<open>driver_ok d\<close> show ?thesis by simp
qed

lemma write_const:
  "led_count (snd (WS2812SpiDriver_write d buf)) = led_count d"
  "clear_buffer (snd (WS2812SpiDriver_write d buf)) = clear_buffer d"
  by (simp_all add: WS2812SpiDriver_write_def Let_def split: sum.splits)

lemma step_ok: "driver_ok d \<Longrightarrow> driver_ok (driver_step d c)"
  by (cases c) (simp_all add: write_ok, simp add: WS2812SpiDriver_clear_def driver_ok_def)

lemma step_const:
  "led_count (driver_step d c) = led_count d"
  "clear_buffer (driver_step d c) = clear_buffer d"
  by (cases c; simp add: write_const WS2812SpiDriver_clear_def)+

lemma run_ok: "driver_ok d \<Longrightarrow> driver_ok (driver_run d cs)"
  unfolding driver_run_def by (induction cs arbitrary: d) (simp_all add: step_ok)

lemma run_const:
  "led_count (driver_run d cs) = led_count d"
  "clear_buffer (driver_run d cs) = clear_buffer d"
  unfolding driver_run_def by (induction cs arbitrary: d) (simp_all add: step_const)

section \<open>Properties of the float operations\<close>

lemma round_half_even_of_int: "round_half_even (of_int m) = m"
  by (simp add: round_half_even_def)

lemma round_half_even_le: "y \<le> of_int M \<Longrightarrow> round_half_even y \<le> M"
  unfolding round_half_even_def Let_def
  by (auto simp: floor_le_iff; linarith)

lemma round_half_even_nonneg: "0 \<le> y \<Longrightarrow> 0 \<le> round_half_even y"
  unfolding round_half_even_def Let_def
  by (auto simp: le_floor_iff; linarith)

lemma pow2_pos: "0 < pow2 e"
  by (simp add: pow2_def)

lemma ilog2_lower: "1 \<le> x \<Longrightarrow> 2 ^ nat (ilog2 x) \<le> x"
proof -
  assume x: "1 \<le> x"
  then have f: "0 < \<lfloor>x\<rfloor>" by linarith
  have "(2::int) ^ nat (bitlen \<lfloor>x\<rfloor> - 1) \<le> \<lfloor>x\<rfloor>"
    using bitlen_bounds [OF f] by simp
  then have "of_int ((2::int) ^ nat (bitlen \<lfloor>x\<rfloor> - 1)) \<le> (of_int \<lfloor>x\<rfloor> :: rat)"
    by (simp only: of_int_le_iff)
  also have "\<dots> \<le> x" by simp
  finally show ?thesis using x by (simp add: ilog2_def)
qed

lemma ilog2_nonneg: "1 \<le> x \<Longrightarrow> 0 \<le> ilog2 x"
proof -
  assume x: "1 \<le> x"
  then have f: "0 < \<lfloor>x\<rfloor>" by linarith
  then have "bitlen \<lfloor>x\<rfloor> \<noteq> 0" by (simp add: bitlen_eq_zero_iff)
  with bitlen_nonneg [of "\<lfloor>x\<rfloor>"] show ?thesis using x by (simp add: ilog2_def)
qed

lemma ilog2_neg: "x < 1 \<Longrightarrow> ilog2 x \<le> 0"
  using bitlen_nonneg [of "\<lceil>1 / x\<rceil> - 1"] by (simp add: ilog2_def)

lemma ilog2_le_52:
  assumes "0 < x" "x < 2 ^ 53"
  shows "ilog2 x \<le> 52"
proof (cases "1 \<le> x")
  case True
  have "(2::rat) ^ nat (ilog2 x) < 2 ^ 53"
    using ilog2_lower [OF True] assms by linarith
  then have "nat (ilog2 x) < 53"
    by (rule power_less_imp_less_exp [rotated]) simp
  then show ?thesis by simp
next
  case False
  then show ?thesis using ilog2_neg [of x] by simp
qed

lemma fl_round_nonneg_bounded:
  assumes "0 \<le> y" "y \<le> of_int K" "K < 2 ^ 53"
  shows "\<exists>z. fl_round y = Fin z \<and> 0 \<le> z \<and> z \<le> of_int K"
proof (cases "y = 0")
  case True
  then show ?thesis using assms by (simp add: fl_round_def)
next
  case False
  with assms have pos: "0 < y" by simp
  have "y < 2 ^ 53"
  proof -
    have "(of_int K :: rat) < of_int (2 ^ 53)" using assms(3) by (simp only: of_int_less_iff)
    with assms(2) show ?thesis by simp
  qed
  then have e: "ilog2 y \<le> 52" using pos by (rule ilog2_le_52 [rotated])
  define q where "q = max (ilog2 y - 52) (- 1074)"
  define n where "n = nat (- q)"
  have q: "q \<le> 0" using e by (simp add: q_def)
  then have pq: "pow2 q = 1 / 2 ^ n"
    by (cases "q = 0") (simp_all add: pow2_def n_def)
  define m where "m = round_half_even (y / pow2 q)"
  have scaled: "y / pow2 q = y * 2 ^ n" by (simp add: pq)
  have "y * 2 ^ n \<le> of_int (K * 2 ^ n)" using assms(2) by simp
  then have m_le: "m \<le> K * 2 ^ n"
    unfolding m_def scaled by (rule round_half_even_le)
  have m_ge: "0 \<le> m"
    unfolding m_def scaled using pos by (intro round_half_even_nonneg) simp
  define v where "v = of_int m * pow2 q"
  have v_le: "v \<le> of_int K"
  proof -
    have "(of_int m :: rat) \<le> of_int (K * 2 ^ n)" using m_le by (simp only: of_int_le_iff)
    then have "(of_int m :: rat) / 2 ^ n \<le> of_int K"
      by (simp add: divide_le_eq)
    then show ?thesis by (simp add: v_def pq)
  qed
  have v_ge: "0 \<le> v" using m_ge by (simp add: v_def pq)
  have "(of_int K :: rat) < of_int (2 ^ 53)" using assms(3) by (simp only: of_int_less_iff)
  also have "\<dots> \<le> pow2 1024" by (simp add: pow2_def)
  finally have "v < pow2 1024" using v_le by simp
  then have "fl_round y = Fin v"
    using pos by (simp add: fl_round_def Let_def v_def m_def q_def)
  with v_le v_ge show ?thesis by simp
qed

lemma fl_round_finite:
  assumes "x \<noteq> 0"
    and "q = max (ilog2 \<bar>x\<bar> - 52) (- 1074)"
    and "v = of_int (round_half_even (\<bar>x\<bar> / pow2 q)) * pow2 q"
    and "v < pow2 1024"
  shows "fl_round x = Fin (if 0 < x then v else - v)"
  using assms by (simp add: fl_round_def Let_def)

lemma fl_round_of_int:
  assumes "\<bar>k\<bar> < 2 ^ 53"
  shows "fl_round (of_int k) = Fin (of_int k)"
proof (cases "k = 0")
  case True
  then show ?thesis by (simp add: fl_round_def)
next
  case False
  define x :: rat where "x = of_int k"
  define a :: rat where "a = \<bar>x\<bar>"
  have ak: "a = of_int \<bar>k\<bar>" by (simp add: a_def x_def)
  have a1: "1 \<le> a"
  proof -
    have "1 \<le> \<bar>k\<bar>" using False by simp
    then have "(of_int 1 :: rat) \<le> of_int \<bar>k\<bar>" by (simp only: of_int_le_iff)
    then show ?thesis by (simp add: ak)
  qed
  have "a < of_int (2 ^ 53)" unfolding ak using assms by (simp only: of_int_less_iff)
  then have a53: "a < 2 ^ 53" by simp
  have e: "ilog2 a \<le> 52" using a1 a53 by (intro ilog2_le_52) simp_all
  define q where "q = max (ilog2 a - 52) (- 1074)"
  define n where "n = nat (- q)"
  have q: "q \<le> 0" using e by (simp add: q_def)
  then have pq: "pow2 q = 1 / 2 ^ n"
    by (cases "q = 0") (simp_all add: pow2_def n_def)
  have "a / pow2 q = of_int (\<bar>k\<bar> * 2 ^ n)" by (simp add: pq ak)
  then have "round_half_even (a / pow2 q) = \<bar>k\<bar> * 2 ^ n"
    by (simp only: round_half_even_of_int)
  then have v: "a = of_int (round_half_even (a / pow2 q)) * pow2 q"
    by (simp add: pq ak)
  have big: "a < pow2 1024" using a53 by (simp add: pow2_def)
  have x0: "x \<noteq> 0" using False by (simp add: x_def)
  have "fl_round x = Fin (if 0 < x then a else - a)"
    using x0 q_def [unfolded a_def] v [unfolded a_def] big [unfolded a_def]
    unfolding a_def by (rule fl_round_finite)
  also have "(if 0 < x then a else - a) = x" by (simp add: a_def)
  finally show ?thesis by (simp add: x_def)
qed

section \<open>More about the driver\<close>

lemma reachable_ok:
  assumes "WS2812SpiDriver_init bus dev n = Inr d0" and "d = driver_run d0 cs"
  shows "driver_ok d \<and> led_count d = n \<and> clear_buffer d = clear_buffer d0"
  using init_ok [OF assms(1)] assms(2) by (simp add: run_ok run_const)

lemma nth_symbols:
  "j < length bs \<Longrightarrow> symbols bs ! j = (if bs ! j = 1 then LED_ONE else LED_ZERO)"
  by (simp add: symbols_def)

lemma init_1: "WS2812SpiDriver_init 0 0 1 = Inr (projr (WS2812SpiDriver_init 0 0 1))"
  by (simp add: WS2812SpiDriver_init_def np_zeros_def np_full_def assign_from_def PREAMBLE_def)

lemma unpackbits_zeros: "unpackbits (replicate k 0) = replicate (8 * k) 0"
proof (induction k)
  case 0
  then show ?case by (simp add: unpackbits_def)
next
  case (Suc k)
  have "byte_bits 0 = replicate 8 0"
    by (simp add: byte_bits_def map_replicate_const)
  moreover have "unpackbits (0 # replicate k 0) = byte_bits 0 @ unpackbits (replicate k 0)"
    by (simp add: unpackbits_def)
  ultimately show ?case using Suc by (simp add: replicate_add [symmetric])
qed

lemma symbols_zeros: "symbols (replicate m 0) = replicate m LED_ZERO"
  by (simp add: symbols_def)

section \<open>The claims about the driver\<close>

text \<open>
  Claim C1.  Take a driver constructed for \<open>n\<close> LEDs, after any sequence of calls, and an
  input buffer of \<open>n * 3\<close> channel bytes.  Then \<open>write\<close> raises nothing and transmits one
  frame, which it also keeps as its buffer.  The frame has exactly \<open>42 + n * 24\<close> bytes, its
  first 42 bytes are zero, and for every \<open>j < n * 24\<close> the byte at position \<open>42 + j\<close> is
  \<open>0b11111100\<close> when bit \<open>j\<close> of the flattened input (each byte's bits most significant
  first) is set, and \<open>0b11000000\<close> otherwise.
\<close>

theorem write_frame_encoding:
  assumes "WS2812SpiDriver_init bus dev n = Inr d0"
    and "d = driver_run d0 cs"
    and "length (ravel buf) = nat n * 3"
  shows "\<exists>frame.
      WS2812SpiDriver_write d buf = (None, d\<lparr>buffer := frame, sent := sent d @ [frame]\<rparr>) \<and>
      length frame = 42 + nat n * 24 \<and>
      (\<forall>i<42. frame ! i = 0) \<and>
      (\<forall>j<nat n * 24.
         frame ! (42 + j) = (if stream_bit (ravel buf) j then 0b11111100 else 0b11000000))"
proof -
  let ?frame = "replicate PREAMBLE 0 @ symbols (unpackbits (ravel buf))"
  from reachable_ok [OF assms(1,2)] have ok: "driver_ok d" and n: "led_count d = n"
    by simp_all
  from assms(3) have "length (ravel buf) = nat (led_count d) * 3"
    unfolding n .
  with ok have w: "WS2812SpiDriver_write d buf =
      (None, d\<lparr>buffer := ?frame, sent := sent d @ [?frame]\<rparr>)"
    by (rule write_match)
  have len: "length ?frame = 42 + nat n * 24"
    using assms(3) by (simp add: PREAMBLE_def)
  have pre: "\<forall>i<42. ?frame ! i = 0"
    by (simp add: PREAMBLE_def nth_append)
  have dat: "?frame ! (42 + j) =
      (if stream_bit (ravel buf) j then 0b11111100 else 0b11000000)"
    if "j < nat n * 24" for j
  proof -
    from that assms(3) have j: "j < 8 * length (ravel buf)" by simp
    have "?frame ! (42 + j) = symbols (unpackbits (ravel buf)) ! j"
      by (simp add: PREAMBLE_def nth_append)
    also have "\<dots> = (if unpackbits (ravel buf) ! j = 1 then LED_ONE else LED_ZERO)"
      using j by (simp add: nth_symbols)
    also have "\<dots> = (if stream_bit (ravel buf) j then LED_ONE else LED_ZERO)"
      using j by (simp add: nth_unpackbits)
    finally show ?thesis by (simp add: LED_ONE_def LED_ZERO_def)
  qed
  from w len pre dat show ?thesis by blast
qed

theorem write_frame_encoding_witness:
  "WS2812SpiDriver_init 0 0 1 = Inr (projr (WS2812SpiDriver_init 0 0 1)) \<and>
   length (ravel [[255, 0, 129]]) = nat 1 * 3 \<and>
   (\<exists>frame.
      WS2812SpiDriver_write (driver_run (projr (WS2812SpiDriver_init 0 0 1)) [Clear])
          [[255, 0, 129]] =
        (None, (driver_run (projr (WS2812SpiDriver_init 0 0 1)) [Clear])
           \<lparr>buffer := frame,
            sent := sent (driver_run (projr (WS2812SpiDriver_init 0 0 1)) [Clear]) @ [frame]\<rparr>) \<and>
      length frame = 66 \<and> frame ! 0 = 0 \<and> frame ! 41 = 0 \<and>
      frame ! 42 = 0b11111100 \<and> frame ! 50 = 0b11000000 \<and>
      frame ! 58 = 0b11111100 \<and> frame ! 59 = 0b11000000 \<and> frame ! 65 = 0b11111100)"
proof -
  let ?d = "driver_run (projr (WS2812SpiDriver_init 0 0 1)) [Clear]"
  have len: "length (ravel [[255, 0, 129 :: u8]]) = nat 1 * 3"
    by (simp add: ravel_def)
  from write_frame_encoding [OF init_1 refl len, of "[Clear]"]
  obtain frame where
    w: "WS2812SpiDriver_write ?d [[255, 0, 129]] =
        (None, ?d\<lparr>buffer := frame, sent := sent ?d @ [frame]\<rparr>)"
    and l: "length frame = 42 + nat 1 * 24"
    and p: "\<forall>i<42. frame ! i = 0"
    and b: "\<forall>j<nat 1 * 24. frame ! (42 + j) =
        (if stream_bit (ravel [[255, 0, 129]]) j then 0b11111100 else 0b11000000)"
    by blast
  have "frame ! 0 = 0" "frame ! 41 = 0" using p by simp_all
  moreover have "frame ! 42 = 0b11111100" using b [rule_format, of 0]
    by (simp add: stream_bit_def ravel_def)
  moreover have "frame ! 50 = 0b11000000" using b [rule_format, of 8]
    by (simp add: stream_bit_def ravel_def)
  moreover have "frame ! 58 = 0b11111100" using b [rule_format, of 16]
    by (simp add: stream_bit_def ravel_def)
  moreover have "frame ! 59 = 0b11000000" using b [rule_format, of 17]
    by (simp add: stream_bit_def ravel_def)
  moreover have "frame ! 65 = 0b11111100" using b [rule_format, of 23]
    by (simp add: stream_bit_def ravel_def)
  ultimately show ?thesis using init_1 len w l by auto
qed

text \<open>
  Claim C3.  The clear frame is the array built at construction: in every state the driver
  can reach, \<open>clear\<close> transmits exactly the \<open>clear_buffer\<close> of the freshly constructed
  driver and changes nothing else, so repeated calls send identical bytes.  That frame has
  \<open>42 + n * 24\<close> bytes: 42 zero bytes, then \<open>n * 24\<close> bytes \<open>0b11000000\<close>, which is the
  encoding of \<open>n * 3\<close> zero channel bytes.
\<close>

theorem clear_frame_constant:
  assumes "WS2812SpiDriver_init bus dev n = Inr d0"
    and "d = driver_run d0 cs"
  shows "WS2812SpiDriver_clear d = d\<lparr>sent := sent d @ [clear_buffer d0]\<rparr> \<and>
     clear_buffer (WS2812SpiDriver_clear d) = clear_buffer d0 \<and>
     length (clear_buffer d0) = 42 + nat n * 24 \<and>
     clear_buffer d0 = replicate 42 0 @ replicate (nat n * 24) 0b11000000 \<and>
     clear_buffer d0 = replicate 42 0 @ symbols (unpackbits (replicate (nat n * 3) 0))"
proof -
  from reachable_ok [OF assms] have same: "clear_buffer d = clear_buffer d0"
    by simp
  from init_ok [OF assms(1)] have "driver_ok d0" and "led_count d0 = n"
    by simp_all
  then have cb: "clear_buffer d0 = replicate 42 0 @ replicate (nat n * 24) LED_ZERO"
    by (simp add: driver_ok_def PREAMBLE_def)
  have "replicate (nat n * 24) LED_ZERO = symbols (unpackbits (replicate (nat n * 3) 0))"
    by (simp add: unpackbits_zeros symbols_zeros)
  with cb same show ?thesis
    by (simp add: WS2812SpiDriver_clear_def LED_ZERO_def)
qed

theorem clear_frame_constant_witness:
  "WS2812SpiDriver_init 0 0 1 = Inr (projr (WS2812SpiDriver_init 0 0 1)) \<and>
   WS2812SpiDriver_clear
       (driver_run (projr (WS2812SpiDriver_init 0 0 1)) [Write [[7, 8, 9]], Clear]) =
     (driver_run (projr (WS2812SpiDriver_init 0 0 1)) [Write [[7, 8, 9]], Clear])
       \<lparr>sent := sent (driver_run (projr (WS2812SpiDriver_init 0 0 1)) [Write [[7, 8, 9]], Clear])
                 @ [replicate 42 0 @ replicate 24 0b11000000]\<rparr> \<and>
   sent (driver_run (projr (WS2812SpiDriver_init 0 0 1)) [Clear, Clear]) =
     [replicate 42 0 @ replicate 24 0b11000000, replicate 42 0 @ replicate 24 0b11000000]"
proof -
  let ?d0 = "projr (WS2812SpiDriver_init 0 0 1)"
  from clear_frame_constant [OF init_1 refl, of "[Write [[7, 8, 9]], Clear]"]
  have a: "WS2812SpiDriver_clear (driver_run ?d0 [Write [[7, 8, 9]], Clear]) =
      (driver_run ?d0 [Write [[7, 8, 9]], Clear])
        \<lparr>sent := sent (driver_run ?d0 [Write [[7, 8, 9]], Clear]) @ [clear_buffer ?d0]\<rparr>"
    and cb: "clear_buffer ?d0 = replicate 42 0 @ replicate (nat 1 * 24) 0b11000000"
    by blast+
  from clear_frame_constant [OF init_1 refl, of "[]"]
    clear_frame_constant [OF init_1 refl, of "[Clear]"]
  have "sent (driver_run ?d0 [Clear, Clear]) = sent ?d0 @ [clear_buffer ?d0, clear_buffer ?d0]"
    by (simp add: driver_run_def)
  moreover have "sent ?d0 = []" using init_ok [OF init_1] by simp
  ultimately show ?thesis using init_1 a cb by simp
qed

text \<open>
  Claim C5.  When the input buffer does not hold exactly \<open>n * 3\<close> bytes, \<open>write\<close> raises
  (numpy's \<open>ValueError\<close> for the shape mismatch in the slice assignment, the error the
  specification calls InvalidBufferLength) and leaves the driver as it was: its buffer is
  not touched and nothing is transmitted, so the data is neither truncated nor padded.
\<close>

theorem write_length_mismatch:
  assumes "WS2812SpiDriver_init bus dev n = Inr d0"
    and "d = driver_run d0 cs"
    and "length (ravel buf) \<noteq> nat n * 3"
  shows "WS2812SpiDriver_write d buf = (Some ValueError, d)"
proof -
  from reachable_ok [OF assms(1,2)] have ok: "driver_ok d" and n: "led_count d = n"
    by simp_all
  from assms(3) have "length (ravel buf) \<noteq> nat (led_count d) * 3"
    unfolding n .
  with ok show ?thesis by (rule write_mismatch)
qed

theorem write_length_mismatch_witness:
  "WS2812SpiDriver_init 0 0 1 = Inr (projr (WS2812SpiDriver_init 0 0 1)) \<and>
   length (ravel [[1, 2]]) \<noteq> nat 1 * 3 \<and>
   length (ravel [[1, 2, 3], [4, 5, 6]]) \<noteq> nat 1 * 3 \<and>
   WS2812SpiDriver_write (driver_run (projr (WS2812SpiDriver_init 0 0 1)) [Clear]) [[1, 2]] =
     (Some ValueError, driver_run (projr (WS2812SpiDriver_init 0 0 1)) [Clear]) \<and>
   WS2812SpiDriver_write (driver_run (projr (WS2812SpiDriver_init 0 0 1)) [Clear])
       [[1, 2, 3], [4, 5, 6]] =
     (Some ValueError, driver_run (projr (WS2812SpiDriver_init 0 0 1)) [Clear])"
proof -
  have short: "length (ravel [[1, 2 :: u8]]) \<noteq> nat 1 * 3"
    and long: "length (ravel [[1, 2, 3], [4, 5, 6 :: u8]]) \<noteq> nat 1 * 3"
    by (simp_all add: ravel_def)
  from write_length_mismatch [OF init_1 refl short, of "[Clear]"]
    write_length_mismatch [OF init_1 refl long, of "[Clear]"]
    init_1 short long
  show ?thesis by simp
qed

section \<open>The strip: what show hands to the driver\<close>

lemma fl_round_zero: "fl_round 0 = Fin 0"
  by (simp add: fl_round_def)

lemma int_to_float_small: "\<bar>c\<bar> < 2 ^ 53 \<Longrightarrow> int_to_float c = Inr (Fin (of_int c))"
  by (simp add: int_to_float_def fl_round_of_int)

lemma int_times_float_valid:
  assumes "0 \<le> c" "c \<le> 255" "0 \<le> x" "x \<le> 1"
  shows "\<exists>y. int_times_float c (Fin x) = Inr (Fin y) \<and>
           float_mul (Fin (of_int c)) (Fin x) = Fin y \<and> 0 \<le> y \<and> y \<le> 255"
proof -
  have c: "int_to_float c = Inr (Fin (of_int c))"
    using assms(1,2) by (intro int_to_float_small) simp
  have lo: "0 \<le> of_int c * x" using assms(1,3) by simp
  have "of_int c * x \<le> of_int c * 1"
    using assms(1,4) by (intro mult_left_mono) simp_all
  also have "\<dots> \<le> of_int 255" using assms(2) by simp
  finally have hi: "of_int c * x \<le> of_int 255" .
  from fl_round_nonneg_bounded [OF lo hi]
  obtain y where "fl_round (of_int c * x) = Fin y" "0 \<le> y" "y \<le> 255" by auto
  then show ?thesis by (simp add: int_times_float_def c)
qed

lemma to_uint8_in_range:
  assumes "0 \<le> y" "y \<le> 255"
  shows "uint (to_uint8 (Fin y)) = rat_trunc y"
proof -
  have "0 \<le> \<lfloor>y\<rfloor>" using assms(1) by simp
  moreover have "\<lfloor>y\<rfloor> \<le> 255" using assms(2) by (simp add: floor_le_iff)
  ultimately have "uint (word_of_int \<lfloor>y\<rfloor> :: u8) = \<lfloor>y\<rfloor>"
    by (simp add: uint_word_of_int)
  with assms(1) show ?thesis by (simp add: rat_trunc_def)
qed

lemma pixel_row_valid:
  assumes "valid_color p" "0 \<le> x" "x \<le> 1"
  shows "\<exists>yg yr yb. pixel_row (Fin x) p = Inr [Fin yg, Fin yr, Fin yb] \<and>
      float_mul (Fin (of_int (color_g p))) (Fin x) = Fin yg \<and>
      float_mul (Fin (of_int (color_r p))) (Fin x) = Fin yr \<and>
      float_mul (Fin (of_int (color_b p))) (Fin x) = Fin yb \<and>
      map uint (map to_uint8 [Fin yg, Fin yr, Fin yb]) = [rat_trunc yg, rat_trunc yr, rat_trunc yb]"
proof -
  from assms obtain yg where g: "int_times_float (color_g p) (Fin x) = Inr (Fin yg)"
      "float_mul (Fin (of_int (color_g p))) (Fin x) = Fin yg" "0 \<le> yg" "yg \<le> 255"
    using int_times_float_valid [of "color_g p" x] by (auto simp: valid_color_def)
  from assms obtain yr where r: "int_times_float (color_r p) (Fin x) = Inr (Fin yr)"
      "float_mul (Fin (of_int (color_r p))) (Fin x) = Fin yr" "0 \<le> yr" "yr \<le> 255"
    using int_times_float_valid [of "color_r p" x] by (auto simp: valid_color_def)
  from assms obtain yb where b: "int_times_float (color_b p) (Fin x) = Inr (Fin yb)"
      "float_mul (Fin (of_int (color_b p))) (Fin x) = Fin yb" "0 \<le> yb" "yb \<le> 255"
    using int_times_float_valid [of "color_b p" x] by (auto simp: valid_color_def)
  have row: "pixel_row (Fin x) p = Inr [Fin yg, Fin yr, Fin yb]"
    by (simp add: pixel_row_def g(1) r(1) b(1))
  have bytes: "map uint (map to_uint8 [Fin yg, Fin yr, Fin yb]) =
      [rat_trunc yg, rat_trunc yr, rat_trunc yb]"
    using g(3,4) r(3,4) b(3,4) by (simp add: to_uint8_in_range del: to_uint8.simps)
  show ?thesis
    by (rule exI [of _ yg], rule exI [of _ yr], rule exI [of _ yb])
      (simp only: row bytes g(2) r(2) b(2) simp_thms)
qed

lemma pixel_rows_valid:
  assumes "list_all valid_color ps" "0 \<le> x" "x \<le> 1"
  shows "\<exists>rows. pixel_rows (Fin x) ps = Inr rows \<and> length rows = length ps \<and>
     (\<forall>i<length ps. pixel_row (Fin x) (ps ! i) = Inr (rows ! i))"
  using assms(1)
proof (induction ps)
  case Nil
  then show ?case by simp
next
  case (Cons p ps)
  then obtain rows where rows: "pixel_rows (Fin x) ps = Inr rows" "length rows = length ps"
      "\<forall>i<length ps. pixel_row (Fin x) (ps ! i) = Inr (rows ! i)"
    by auto
  from Cons.prems assms(2,3) obtain row where row: "pixel_row (Fin x) p = Inr row"
    using pixel_row_valid [of p x] by auto
  have "\<forall>i<length (p # ps). pixel_row (Fin x) ((p # ps) ! i) = Inr ((row # rows) ! i)"
    using rows(3) row by (auto simp: nth_Cons split: nat.splits)
  then show ?case using rows(1,2) row by simp
qed

lemma init_3: "WS2812SpiDriver_init 0 0 3 = Inr (projr (WS2812SpiDriver_init 0 0 3))"
  by (simp add: WS2812SpiDriver_init_def np_zeros_def np_full_def assign_from_def PREAMBLE_def)

lemma led_count_init_3: "led_count (projr (WS2812SpiDriver_init 0 0 3)) = 3"
  using init_ok [OF init_3] by simp

lemma rgb_strip_pixels: "pixels rgb_strip = [Color 255 0 0, Color 0 255 0, Color 0 0 255]"
  by (simp add: rgb_strip_def strip_run_def get_strip_def Strip_init_def
      WS2812SpiDriver_get_led_count_def led_count_init_3 py_repeat_def
      Strip_set_pixel_color_def py_setitem_def numeral_3_eq_3)

lemma rgb_strip_brightness: "brightness rgb_strip = Fin 1"
  by (simp add: rgb_strip_def strip_run_def get_strip_def Strip_init_def
      WS2812SpiDriver_get_led_count_def led_count_init_3 py_repeat_def
      Strip_set_pixel_color_def py_setitem_def numeral_3_eq_3)

lemma fl_round_255: "fl_round 255 = Fin 255"
  using fl_round_of_int [of 255] by simp

text \<open>The product is the float product, rounded to the nearest double, and only then
  truncated.  The double nearest to one third times 3 is exactly 1.0, although the exact
  product is below 1: the byte sent for channel value 3 at that brightness is 1.\<close>

lemma float_product_is_rounded:
  "float_mul (Fin 3) (Fin (6004799503160661 / 18014398509481984)) = Fin 1"
  "(3 :: rat) * (6004799503160661 / 18014398509481984) < 1"
  by code_simp+

lemma bytes_of_uints:
  "map uint xs = [a, b, c] \<Longrightarrow> xs = [word_of_int a, word_of_int b, word_of_int c :: u8]"
  by (auto simp: map_eq_Cons_conv)

lemma three_elements: "length xs = 3 \<Longrightarrow> xs = [xs ! 0, xs ! 1, xs ! 2]"
  by (auto simp: numeral_3_eq_3 numeral_2_eq_2 length_Suc_conv)

text \<open>
  Claim C2.  Take a strip whose brightness is a number between 0 and 1 and whose pixels all
  have channels between 0 and 255.  Then \<open>show\<close> builds a buffer and hands exactly that
  buffer to the driver's \<open>write\<close>; nothing else of the strip changes.  The buffer has one row
  per pixel, in pixel order, and row \<open>i\<close> holds three bytes in the order green, red, blue:
  each is the float product of the pixel's channel and the brightness, truncated toward
  zero (the products are finite, and the bytes are read as unsigned numbers).  The witness
  is the end-to-end scenario: pixels red, green, blue at brightness 1.0 give
  \<open>[[0,255,0], [255,0,0], [0,0,255]]\<close>.
\<close>

theorem show_passes_scaled_grb:
  assumes "brightness s = Fin x" and "0 \<le> x" and "x \<le> 1"
    and "list_all valid_color (pixels s)"
  shows "\<exists>buf. show_buffer s = Inr buf \<and>
      Strip_show s =
        (fst (WS2812SpiDriver_write (backend s) buf),
         s\<lparr>backend := snd (WS2812SpiDriver_write (backend s) buf)\<rparr>) \<and>
      length buf = length (pixels s) \<and>
      (\<forall>i<length (pixels s). \<exists>yg yr yb.
          float_mul (Fin (of_int (color_g (pixels s ! i)))) (brightness s) = Fin yg \<and>
          float_mul (Fin (of_int (color_r (pixels s ! i)))) (brightness s) = Fin yr \<and>
          float_mul (Fin (of_int (color_b (pixels s ! i)))) (brightness s) = Fin yb \<and>
          map uint (buf ! i) = [rat_trunc yg, rat_trunc yr, rat_trunc yb])"
proof -
  from pixel_rows_valid [OF assms(4,2,3)] obtain rows where
    rows: "pixel_rows (Fin x) (pixels s) = Inr rows" "length rows = length (pixels s)"
      "\<forall>i<length (pixels s). pixel_row (Fin x) (pixels s ! i) = Inr (rows ! i)"
    by blast
  let ?buf = "map (map to_uint8) rows"
  have buf: "show_buffer s = Inr ?buf"
    by (simp add: show_buffer_def assms(1) rows(1))
  then have sh: "Strip_show s =
      (fst (WS2812SpiDriver_write (backend s) ?buf),
       s\<lparr>backend := snd (WS2812SpiDriver_write (backend s) ?buf)\<rparr>)"
    by (simp add: Strip_show_def split: prod.splits)
  have each: "\<exists>yg yr yb.
      float_mul (Fin (of_int (color_g (pixels s ! i)))) (brightness s) = Fin yg \<and>
      float_mul (Fin (of_int (color_r (pixels s ! i)))) (brightness s) = Fin yr \<and>
      float_mul (Fin (of_int (color_b (pixels s ! i)))) (brightness s) = Fin yb \<and>
      map uint (?buf ! i) = [rat_trunc yg, rat_trunc yr, rat_trunc yb]"
    if i: "i < length (pixels s)" for i
  proof -
    from assms(4) i have "valid_color (pixels s ! i)"
      by (simp add: list_all_length)
    from pixel_row_valid [OF this assms(2,3)] obtain yg yr yb where
      y: "pixel_row (Fin x) (pixels s ! i) = Inr [Fin yg, Fin yr, Fin yb]"
        "float_mul (Fin (of_int (color_g (pixels s ! i)))) (Fin x) = Fin yg"
        "float_mul (Fin (of_int (color_r (pixels s ! i)))) (Fin x) = Fin yr"
        "float_mul (Fin (of_int (color_b (pixels s ! i)))) (Fin x) = Fin yb"
        "map uint (map to_uint8 [Fin yg, Fin yr, Fin yb]) =
          [rat_trunc yg, rat_trunc yr, rat_trunc yb]"
      by (elim exE conjE) (rule that; assumption)
    from rows(3) i y(1) have "rows ! i = [Fin yg, Fin yr, Fin yb]" by simp
    then have "?buf ! i = map to_uint8 [Fin yg, Fin yr, Fin yb]"
      using i rows(2) by simp
    with y(5) have "map uint (?buf ! i) = [rat_trunc yg, rat_trunc yr, rat_trunc yb]"
      by (simp only:)
    with y(2,3,4) show ?thesis
      unfolding assms(1)
      by (intro exI [of _ yg] exI [of _ yr] exI [of _ yb] conjI)
  qed
  have len: "length ?buf = length (pixels s)" by (simp add: rows(2))
  from each have all: "\<forall>i<length (pixels s). \<exists>yg yr yb.
      float_mul (Fin (of_int (color_g (pixels s ! i)))) (brightness s) = Fin yg \<and>
      float_mul (Fin (of_int (color_r (pixels s ! i)))) (brightness s) = Fin yr \<and>
      float_mul (Fin (of_int (color_b (pixels s ! i)))) (brightness s) = Fin yb \<and>
      map uint (?buf ! i) = [rat_trunc yg, rat_trunc yr, rat_trunc yb]"
    by (intro allI impI)
  show ?thesis
    by (rule exI [of _ ?buf]) (intro conjI buf sh len all)
qed

theorem show_passes_scaled_grb_witness:
  "brightness rgb_strip = Fin 1 \<and> (0::rat) \<le> 1 \<and> (1::rat) \<le> 1 \<and>
   list_all valid_color (pixels rgb_strip) \<and>
   pixels rgb_strip = [Color 255 0 0, Color 0 255 0, Color 0 0 255] \<and>
   show_buffer rgb_strip = Inr [[0, 255, 0], [255, 0, 0], [0, 0, 255]] \<and>
   Strip_show rgb_strip =
     (fst (WS2812SpiDriver_write (backend rgb_strip) [[0, 255, 0], [255, 0, 0], [0, 0, 255]]),
      rgb_strip\<lparr>backend :=
        snd (WS2812SpiDriver_write (backend rgb_strip) [[0, 255, 0], [255, 0, 0], [0, 0, 255]])\<rparr>)"
proof -
  have valid: "list_all valid_color (pixels rgb_strip)"
    by (simp add: rgb_strip_pixels valid_color_def)
  from show_passes_scaled_grb [OF rgb_strip_brightness _ _ valid]
  obtain buf where buf: "show_buffer rgb_strip = Inr buf"
    and sh: "Strip_show rgb_strip =
      (fst (WS2812SpiDriver_write (backend rgb_strip) buf),
       rgb_strip\<lparr>backend := snd (WS2812SpiDriver_write (backend rgb_strip) buf)\<rparr>)"
    and len: "length buf = length (pixels rgb_strip)"
    and each: "\<forall>i<length (pixels rgb_strip). \<exists>yg yr yb.
        float_mul (Fin (of_int (color_g (pixels rgb_strip ! i)))) (brightness rgb_strip) = Fin yg \<and>
        float_mul (Fin (of_int (color_r (pixels rgb_strip ! i)))) (brightness rgb_strip) = Fin yr \<and>
        float_mul (Fin (of_int (color_b (pixels rgb_strip ! i)))) (brightness rgb_strip) = Fin yb \<and>
        map uint (buf ! i) = [rat_trunc yg, rat_trunc yr, rat_trunc yb]"
    by auto
  have len3: "length buf = 3" using len by (simp add: rgb_strip_pixels)
  have "buf ! 0 = [0, 255, 0]"
    using each [rule_format, of 0]
    by (auto simp: rgb_strip_pixels rgb_strip_brightness fl_round_255 fl_round_zero
        rat_trunc_def dest!: bytes_of_uints)
  moreover have "buf ! 1 = [255, 0, 0]"
    using each [rule_format, of 1]
    by (auto simp: rgb_strip_pixels rgb_strip_brightness fl_round_255 fl_round_zero
        rat_trunc_def dest!: bytes_of_uints)
  moreover have "buf ! 2 = [0, 0, 255]"
    using each [rule_format, of 2]
    by (auto simp: rgb_strip_pixels rgb_strip_brightness fl_round_255 fl_round_zero
        rat_trunc_def dest!: bytes_of_uints)
  ultimately have "buf = [[0, 255, 0], [255, 0, 0], [0, 0, 255]]"
    using three_elements [OF len3] by simp
  with buf sh valid rgb_strip_brightness rgb_strip_pixels show ?thesis by simp
qed

section \<open>The strip: indices, invariants and brightness\<close>

lemma Strip_init_ok:
  assumes "WS2812SpiDriver_init bus dev n = Inr d"
  shows "strip_ok (Strip_init d) \<and> strip_led_count (Strip_init d) = n"
  using init_ok [OF assms]
  by (simp add: strip_ok_def Strip_init_def WS2812SpiDriver_get_led_count_def py_repeat_def
      driver_ok_def)

lemma set_pixel_color_cases:
  "Strip_set_pixel_color s i c =
     (if - int (length (pixels s)) \<le> i \<and> i < int (length (pixels s))
      then (None, s\<lparr>pixels := (pixels s)[nat (if i < 0 then i + int (length (pixels s)) else i) := c]\<rparr>)
      else (Some IndexError, s))"
  by (simp add: Strip_set_pixel_color_def py_setitem_def Let_def)

lemma set_pixel_color_ok: "strip_ok s \<Longrightarrow> strip_ok (snd (Strip_set_pixel_color s i c))"
  by (simp add: set_pixel_color_cases strip_ok_def)

lemma show_frame:
  "pixels (snd (Strip_show s)) = pixels s"
  "brightness (snd (Strip_show s)) = brightness s"
  "strip_led_count (snd (Strip_show s)) = strip_led_count s"
  by (simp_all add: Strip_show_def split: sum.splits prod.splits)

lemma show_unfold:
  "Strip_show s =
     (case show_buffer s of
        Inl e \<Rightarrow> (Some e, s)
      | Inr buf \<Rightarrow>
          (fst (WS2812SpiDriver_write (backend s) buf),
           s\<lparr>backend := snd (WS2812SpiDriver_write (backend s) buf)\<rparr>))"
  by (simp add: Strip_show_def split: sum.splits prod.splits)

lemma show_ok: "strip_ok s \<Longrightarrow> strip_ok (snd (Strip_show s))"
  by (cases "show_buffer s") (simp_all add: show_unfold strip_ok_def write_ok write_const)

lemma clear_ok: "strip_ok s \<Longrightarrow> strip_ok (Strip_clear s)"
  by (auto simp: strip_ok_def Strip_clear_def py_repeat_def WS2812SpiDriver_clear_def
      driver_ok_def)

lemma set_brightness_ok: "strip_ok s \<Longrightarrow> strip_ok (Strip_set_brightness s b)"
  by (simp add: strip_ok_def Strip_set_brightness_def)

lemma set_all_pixels_ok: "strip_ok s \<Longrightarrow> strip_ok (Strip_set_all_pixels s c)"
  by (auto simp: strip_ok_def Strip_set_all_pixels_def py_repeat_def)

lemma strip_step_ok: "strip_ok s \<Longrightarrow> strip_ok (strip_step s call)"
  by (cases call)
    (simp_all add: set_pixel_color_ok show_ok clear_ok set_brightness_ok set_all_pixels_ok)

lemma strip_step_led_count: "strip_led_count (strip_step s call) = strip_led_count s"
  by (cases call)
    (simp_all add: set_pixel_color_cases show_frame Strip_clear_def Strip_set_brightness_def
      Strip_set_all_pixels_def)

lemma strip_run_ok: "strip_ok s \<Longrightarrow> strip_ok (strip_run s cs)"
  unfolding strip_run_def by (induction cs arbitrary: s) (simp_all add: strip_step_ok)

lemma strip_run_led_count: "strip_led_count (strip_run s cs) = strip_led_count s"
  unfolding strip_run_def by (induction cs arbitrary: s) (simp_all add: strip_step_led_count)

lemma reachable_strip:
  assumes "WS2812SpiDriver_init bus dev n = Inr d" and "s = strip_run (get_strip d) cs"
  shows "strip_ok s \<and> strip_led_count s = n \<and> int (length (pixels s)) = n"
proof -
  from Strip_init_ok [OF assms(1)] have "strip_ok s" and "strip_led_count s = n"
    by (simp_all add: assms(2) get_strip_def strip_run_ok strip_run_led_count)
  then show ?thesis by (simp add: strip_ok_def)
qed

text \<open>
  Claim C7.  After construction for \<open>n\<close> LEDs the pixel buffer holds exactly \<open>n\<close> colours,
  and it still does after any sequence of calls of the public methods \<open>set_pixel_color\<close>,
  \<open>set_all_pixels\<close>, \<open>set_brightness\<close>, \<open>show\<close> and \<open>clear\<close>, whether or not some of
  them raised; \<open>num_pixels\<close> keeps returning \<open>n\<close>.
\<close>

theorem pixel_buffer_length_invariant:
  assumes "WS2812SpiDriver_init bus dev n = Inr d"
  shows "length (pixels (get_strip d)) = nat n \<and>
     length (pixels (strip_run (get_strip d) cs)) = nat n \<and>
     Strip_num_pixels (strip_run (get_strip d) cs) = n"
proof -
  from reachable_strip [OF assms refl, of cs] reachable_strip [OF assms refl, of "[]"]
  show ?thesis by (auto simp: Strip_num_pixels_def strip_run_def)
qed

lemma init_2: "WS2812SpiDriver_init 0 0 2 = Inr (projr (WS2812SpiDriver_init 0 0 2))"
  by (simp add: WS2812SpiDriver_init_def np_zeros_def np_full_def assign_from_def PREAMBLE_def)

theorem pixel_buffer_length_invariant_witness:
  "WS2812SpiDriver_init 0 0 2 = Inr (projr (WS2812SpiDriver_init 0 0 2)) \<and>
   length (pixels (get_strip (projr (WS2812SpiDriver_init 0 0 2)))) = nat 2 \<and>
   length (pixels (strip_run (get_strip (projr (WS2812SpiDriver_init 0 0 2)))
     [SetPixelColor 1 (Color 1 2 3), SetPixelColor 2 (Color 1 2 3), Show,
      SetBrightness (Fin (1 / 2)), SetAllPixels (Color 9 9 9), Show, ClearStrip,
      SetPixelColor (- 1) (Color 4 5 6)])) = nat 2"
  using pixel_buffer_length_invariant [OF init_2] init_2 by simp

lemma fresh_strip_3:
  "get_strip (projr (WS2812SpiDriver_init 0 0 3)) =
     \<lparr>strip_led_count = 3, brightness = Fin 1,
      pixels = [Color 0 0 0, Color 0 0 0, Color 0 0 0],
      backend = projr (WS2812SpiDriver_init 0 0 3)\<rparr>"
  by (simp add: get_strip_def Strip_init_def WS2812SpiDriver_get_led_count_def
      led_count_init_3 py_repeat_def numeral_3_eq_3)

text \<open>
  Claim C4, as amended.  On a strip of \<open>n\<close> LEDs, \<open>set_pixel_color(i, c)\<close> with
  \<open>0 \<le> i < n\<close> raises nothing and changes the pixel at \<open>i\<close> only: the other pixels, the
  brightness and the driver (so also what has been transmitted) stay as they were.  With
  \<open>i \<ge> n\<close>, which includes \<open>i = n\<close>, or \<open>i < -n\<close> it raises \<open>IndexError\<close> (the error the
  specification calls IndexOutOfRange) and changes nothing.  The claim as stated also
  promises the error for \<open>-n \<le> i < 0\<close>; there the call raises nothing and changes the pixel
  at \<open>n + i\<close> only, as the counterexample below shows for index \<open>-1\<close>.
\<close>

theorem set_pixel_color_index_check:
  assumes "WS2812SpiDriver_init bus dev n = Inr d"
    and "s = strip_run (get_strip d) cs"
  shows "(0 \<le> i \<and> i < n \<longrightarrow>
        Strip_set_pixel_color s i c = (None, s\<lparr>pixels := (pixels s)[nat i := c]\<rparr>)) \<and>
     (n \<le> i \<or> i < - n \<longrightarrow> Strip_set_pixel_color s i c = (Some IndexError, s)) \<and>
     (- n \<le> i \<and> i < 0 \<longrightarrow>
        Strip_set_pixel_color s i c = (None, s\<lparr>pixels := (pixels s)[nat (n + i) := c]\<rparr>))"
  using reachable_strip [OF assms] by (auto simp: set_pixel_color_cases add.commute)

theorem set_pixel_color_index_check_witness:
  "WS2812SpiDriver_init 0 0 3 = Inr (projr (WS2812SpiDriver_init 0 0 3)) \<and>
   Strip_set_pixel_color (get_strip (projr (WS2812SpiDriver_init 0 0 3))) 2 (Color 1 2 3) =
     (None, (get_strip (projr (WS2812SpiDriver_init 0 0 3)))
        \<lparr>pixels := [Color 0 0 0, Color 0 0 0, Color 1 2 3]\<rparr>) \<and>
   Strip_set_pixel_color (get_strip (projr (WS2812SpiDriver_init 0 0 3))) 3 (Color 1 2 3) =
     (Some IndexError, get_strip (projr (WS2812SpiDriver_init 0 0 3))) \<and>
   Strip_set_pixel_color (get_strip (projr (WS2812SpiDriver_init 0 0 3))) (- 4) (Color 1 2 3) =
     (Some IndexError, get_strip (projr (WS2812SpiDriver_init 0 0 3))) \<and>
   Strip_set_pixel_color (get_strip (projr (WS2812SpiDriver_init 0 0 3))) (- 2) (Color 1 2 3) =
     (None, (get_strip (projr (WS2812SpiDriver_init 0 0 3)))
        \<lparr>pixels := [Color 0 0 0, Color 1 2 3, Color 0 0 0]\<rparr>)"
proof -
  let ?s = "get_strip (projr (WS2812SpiDriver_init 0 0 3))"
  have run: "?s = strip_run ?s []" by (simp add: strip_run_def)
  have px: "pixels ?s = [Color 0 0 0, Color 0 0 0, Color 0 0 0]" by (simp add: fresh_strip_3)
  from set_pixel_color_index_check [OF init_3 run, of 2 "Color 1 2 3"]
  have "Strip_set_pixel_color ?s 2 (Color 1 2 3) =
      (None, ?s\<lparr>pixels := [Color 0 0 0, Color 0 0 0, Color 1 2 3]\<rparr>)"
    by (simp add: px)
  moreover from set_pixel_color_index_check [OF init_3 run, of "- 2" "Color 1 2 3"]
  have "Strip_set_pixel_color ?s (- 2) (Color 1 2 3) =
      (None, ?s\<lparr>pixels := [Color 0 0 0, Color 1 2 3, Color 0 0 0]\<rparr>)"
    by (simp add: px)
  moreover from set_pixel_color_index_check [OF init_3 run, of 3 "Color 1 2 3"]
  have "Strip_set_pixel_color ?s 3 (Color 1 2 3) = (Some IndexError, ?s)" by simp
  moreover from set_pixel_color_index_check [OF init_3 run, of "- 4" "Color 1 2 3"]
  have "Strip_set_pixel_color ?s (- 4) (Color 1 2 3) = (Some IndexError, ?s)" by simp
  ultimately show ?thesis using init_3 by simp
qed

theorem set_pixel_color_minus_one_counterexample:
  "\<not> (0 \<le> (- 1 :: int) \<and> - 1 < Strip_num_pixels (get_strip (projr (WS2812SpiDriver_init 0 0 3)))) \<and>
   Strip_num_pixels (get_strip (projr (WS2812SpiDriver_init 0 0 3))) = 3 \<and>
   fst (Strip_set_pixel_color (get_strip (projr (WS2812SpiDriver_init 0 0 3))) (- 1) (Color 1 2 3))
     \<noteq> Some IndexError \<and>
   pixels (snd (Strip_set_pixel_color (get_strip (projr (WS2812SpiDriver_init 0 0 3))) (- 1)
     (Color 1 2 3))) = [Color 0 0 0, Color 0 0 0, Color 1 2 3]"
  by (simp add: fresh_strip_3 set_pixel_color_cases Strip_num_pixels_def)

text \<open>
  Claim C9.  On a strip of \<open>n\<close> LEDs, \<open>set_pixel_color(i, c)\<close> with \<open>-n \<le> i \<le> -1\<close>
  raises nothing and stores \<open>c\<close> at position \<open>n + i\<close>, which is a position of the buffer;
  nothing else changes.
\<close>

theorem set_pixel_color_negative_index:
  assumes "WS2812SpiDriver_init bus dev n = Inr d"
    and "s = strip_run (get_strip d) cs"
    and "- n \<le> i" and "i \<le> - 1"
  shows "Strip_set_pixel_color s i c = (None, s\<lparr>pixels := (pixels s)[nat (n + i) := c]\<rparr>) \<and>
     nat (n + i) < length (pixels s) \<and>
     pixels (snd (Strip_set_pixel_color s i c)) ! nat (n + i) = c"
  using reachable_strip [OF assms(1,2)] assms(3,4)
  by (auto simp: set_pixel_color_cases add.commute)

theorem set_pixel_color_negative_index_witness:
  "WS2812SpiDriver_init 0 0 3 = Inr (projr (WS2812SpiDriver_init 0 0 3)) \<and>
   - 3 \<le> (- 3 :: int) \<and> (- 3 :: int) \<le> - 1 \<and>
   Strip_set_pixel_color (get_strip (projr (WS2812SpiDriver_init 0 0 3))) (- 3) (Color 1 2 3) =
     (None, (get_strip (projr (WS2812SpiDriver_init 0 0 3)))
        \<lparr>pixels := [Color 1 2 3, Color 0 0 0, Color 0 0 0]\<rparr>)"
proof -
  let ?s = "get_strip (projr (WS2812SpiDriver_init 0 0 3))"
  have run: "?s = strip_run ?s []" by (simp add: strip_run_def)
  have px: "pixels ?s = [Color 0 0 0, Color 0 0 0, Color 0 0 0]" by (simp add: fresh_strip_3)
  from set_pixel_color_negative_index [OF init_3 run, of "- 3" "Color 1 2 3"]
  have "Strip_set_pixel_color ?s (- 3) (Color 1 2 3) =
      (None, ?s\<lparr>pixels := [Color 1 2 3, Color 0 0 0, Color 0 0 0]\<rparr>)"
    by (simp add: px)
  then show ?thesis using init_3 by simp
qed

text \<open>
  Claim C10.  \<open>show\<close> leaves the strip's own state as it was, in every state and
  whether or not it raises: the pixel buffer, with its colours in (r, g, b) order, the
  brightness and the LED count after the call are those before it.  Scaling and
  reordering only happen in the buffer handed to the driver.
\<close>

theorem show_keeps_strip_state:
  "pixels (snd (Strip_show s)) = pixels s \<and>
   brightness (snd (Strip_show s)) = brightness s \<and>
   strip_led_count (snd (Strip_show s)) = strip_led_count s"
  by (simp add: show_frame)

lemma set_brightness_finite:
  "Strip_set_brightness s (Fin x) = s\<lparr>brightness := Fin (max 0 (min 1 x))\<rparr>"
  by (simp add: Strip_set_brightness_def py_min_def py_max_def)

lemma set_brightness_infinite:
  "Strip_set_brightness s PosInf = s\<lparr>brightness := Fin 1\<rparr>"
  "Strip_set_brightness s NegInf = s\<lparr>brightness := Fin 0\<rparr>"
  by (simp_all add: Strip_set_brightness_def py_min_def py_max_def)

lemma set_brightness_clamps:
  assumes "b \<noteq> NaN"
  shows "\<exists>x. brightness (Strip_set_brightness s b) = Fin x \<and> 0 \<le> x \<and> x \<le> 1 \<and>
           pixels (Strip_set_brightness s b) = pixels s"
  using assms by (cases b) (auto simp: set_brightness_finite set_brightness_infinite)

lemma set_brightness_examples:
  "brightness (Strip_set_brightness s (Fin (- 1 / 2))) = Fin 0"
  "brightness (Strip_set_brightness s (Fin (3 / 2))) = Fin 1"
  by (simp_all add: set_brightness_finite)

text \<open>
  Claim C6 fails for one input.  \<open>set_brightness(float('nan'))\<close> stores NaN, which is not
  a value between 0.0 and 1.0: \<open>min(nan, 1.0)\<close> is \<open>nan\<close>, because \<open>1.0 < nan\<close> is false, and
  \<open>max(nan, 0.0)\<close> is \<open>nan\<close> again.  A later \<open>show\<close> multiplies every channel by NaN.
  For every other input the stored value is the clamped one (lemmas
  \<open>set_brightness_finite\<close>, \<open>set_brightness_infinite\<close>, \<open>set_brightness_clamps\<close>).
\<close>

theorem set_brightness_nan:
  "Strip_get_brightness (Strip_set_brightness s NaN) = NaN \<and>
   int_times_float 255 (Strip_get_brightness (Strip_set_brightness s NaN)) = Inr NaN"
proof -
  have "int_to_float 255 = Inr (Fin 255)"
    using int_to_float_small [of 255] by simp
  then show ?thesis
    by (simp add: Strip_set_brightness_def Strip_get_brightness_def py_min_def py_max_def
        int_times_float_def)
qed

section \<open>The rotation effect\<close>

lemma set_pattern_fold:
  assumes "\<forall>j\<in>set js. j < length (pixels s) \<and> j < length pattern"
  shows "set_pattern s pattern js =
     (None, s\<lparr>pixels := fold (\<lambda>j ps. ps[j := pattern ! j]) js (pixels s)\<rparr>)"
  using assms
proof (induction js arbitrary: s)
  case Nil
  then show ?case by simp
next
  case (Cons j js)
  let ?s' = "s\<lparr>pixels := (pixels s)[j := pattern ! j]\<rparr>"
  from Cons.prems have j: "j < length (pixels s)" "j < length pattern" by simp_all
  then have get: "py_getitem pattern (int j) = Inr (pattern ! j)"
    by (simp add: py_getitem_def)
  from j have set: "Strip_set_pixel_color s (int j) (pattern ! j) = (None, ?s')"
    by (simp add: set_pixel_color_cases)
  from Cons.prems have "\<forall>i\<in>set js. i < length (pixels ?s') \<and> i < length pattern"
    by simp
  from Cons.IH [OF this] show ?case
    by (simp add: get set)
qed

lemma fold_update_upt:
  assumes "k \<le> length ps" "k \<le> length pattern"
  shows "fold (\<lambda>j ps. ps[j := pattern ! j]) [0..<k] ps = take k pattern @ drop k ps"
  using assms
proof (induction k)
  case 0
  then show ?case by simp
next
  case (Suc k)
  then have IH: "fold (\<lambda>j ps. ps[j := pattern ! j]) [0..<k] ps = take k pattern @ drop k ps"
    by simp
  from Suc.prems have k: "k < length ps" "k < length pattern" by simp_all
  have "(take k pattern @ drop k ps)[k := pattern ! k] =
      take k pattern @ (drop k ps)[0 := pattern ! k]"
    using k by (simp add: list_update_append)
  also have "(drop k ps)[0 := pattern ! k] = pattern ! k # drop (Suc k) ps"
    using k by (simp add: Cons_nth_drop_Suc [symmetric])
  also have "take k pattern @ pattern ! k # drop (Suc k) ps =
      take (Suc k) pattern @ drop (Suc k) ps"
    using k by (simp add: take_Suc_conv_app_nth)
  finally show ?case by (simp add: IH)
qed

lemma set_pattern_all:
  assumes "length (pixels s) = m" "length pattern = m"
  shows "set_pattern s pattern [0..<m] = (None, s\<lparr>pixels := pattern\<rparr>)"
proof -
  have "set_pattern s pattern [0..<m] =
      (None, s\<lparr>pixels := fold (\<lambda>j ps. ps[j := pattern ! j]) [0..<m] (pixels s)\<rparr>)"
    using assms by (intro set_pattern_fold) simp
  also have "fold (\<lambda>j ps. ps[j := pattern ! j]) [0..<m] (pixels s) = pattern"
    using assms by (simp add: fold_update_upt)
  finally show ?thesis .
qed

lemma pixel_rows_shape:
  assumes "list_all valid_color ps"
  shows "\<exists>rows. pixel_rows br ps = Inr rows \<and> length (concat rows) = length ps * 3 \<and>
     length rows = length ps"
  using assms
proof (induction ps)
  case Nil
  then show ?case by simp
next
  case (Cons p ps)
  then obtain rows where rows: "pixel_rows br ps = Inr rows"
      "length (concat rows) = length ps * 3" "length rows = length ps"
    by auto
  from Cons.prems have v: "valid_color p" by simp
  have "int_to_float (color_g p) = Inr (Fin (of_int (color_g p)))"
    "int_to_float (color_r p) = Inr (Fin (of_int (color_r p)))"
    "int_to_float (color_b p) = Inr (Fin (of_int (color_b p)))"
    using v by (auto simp: valid_color_def intro!: int_to_float_small)
  then obtain row where row: "pixel_row br p = Inr row" "length row = 3"
    by (simp add: pixel_row_def int_times_float_def)
  then show ?case using rows by simp
qed

lemma length_concat_map_map:
  "length (concat (map (map f) rows)) = length (concat rows)"
  by (induction rows) simp_all

lemma show_succeeds:
  assumes "strip_ok s" "list_all valid_color (pixels s)"
  shows "\<exists>drv. Strip_show s = (None, s\<lparr>backend := drv\<rparr>) \<and> strip_ok (s\<lparr>backend := drv\<rparr>)"
proof -
  from pixel_rows_shape [OF assms(2), of "brightness s"] obtain rows where
    rows: "pixel_rows (brightness s) (pixels s) = Inr rows"
      "length (concat rows) = length (pixels s) * 3"
    by blast
  let ?buf = "map (map to_uint8) rows"
  have buf: "show_buffer s = Inr ?buf" by (simp add: show_buffer_def rows(1))
  from assms(1) have ok: "driver_ok (backend s)"
    and n: "nat (led_count (backend s)) = length (pixels s)"
    by (auto simp: strip_ok_def)
  have "length (ravel ?buf) = nat (led_count (backend s)) * 3"
    by (simp add: ravel_def length_concat_map_map rows(2) n)
  from write_match [OF ok this] obtain drv where
    w: "WS2812SpiDriver_write (backend s) ?buf = (None, drv)" by blast
  then have "Strip_show s = (None, s\<lparr>backend := drv\<rparr>)"
    by (simp add: show_unfold buf)
  moreover from show_ok [OF assms(1)] this have "strip_ok (s\<lparr>backend := drv\<rparr>)" by simp
  ultimately show ?thesis by blast
qed

lemma rotate_loop_result:
  assumes "strip_ok s" "strip_led_count s = int m" "0 < m"
    and "length pattern = m" "list_all valid_color pattern"
  shows "\<exists>s'. rotate_loop k (int m) s pattern = (None, s') \<and>
     (0 < k \<longrightarrow> pixels s' = rotate k pattern)"
  using assms(1,2,4,5)
proof (induction k arbitrary: s pattern)
  case 0
  then show ?case by simp
next
  case (Suc k)
  from Suc.prems(3) assms(3) obtain first rest where p: "pattern = first # rest"
    by (cases pattern) auto
  let ?p = "rest @ [first]"
  have pop: "pop0 pattern = Inr (first, rest)" by (simp add: pop0_def p)
  have lenp: "length ?p = m" using Suc.prems(3) p by simp
  have validp: "list_all valid_color ?p" using Suc.prems(4) p by simp
  have lens: "length (pixels s) = m" using Suc.prems(1,2) by (simp add: strip_ok_def)
  let ?s1 = "s\<lparr>pixels := ?p\<rparr>"
  have sp: "set_pattern s ?p [0..<m] = (None, ?s1)"
    using lens lenp by (rule set_pattern_all)
  have ok1: "strip_ok ?s1" using Suc.prems(1,2) lenp by (simp add: strip_ok_def)
  from show_succeeds [OF ok1] validp obtain drv where
    sh: "Strip_show ?s1 = (None, ?s1\<lparr>backend := drv\<rparr>)"
    and ok2: "strip_ok (?s1\<lparr>backend := drv\<rparr>)"
    by auto
  let ?s2 = "?s1\<lparr>backend := drv\<rparr>"
  have lc2: "strip_led_count ?s2 = int m" using Suc.prems(2) by simp
  from Suc.IH [OF ok2 lc2 lenp validp] obtain s' where
    rec: "rotate_loop k (int m) ?s2 ?p = (None, s')"
    and px: "0 < k \<longrightarrow> pixels s' = rotate k ?p"
    by blast
  have step: "rotate_loop (Suc k) (int m) s pattern = (None, s')"
    by (simp add: pop sp sh rec)
  have "pixels s' = rotate (Suc k) pattern"
  proof (cases k)
    case 0
    with rec have "s' = ?s2" by simp
    then show ?thesis using 0 by (simp add: p)
  next
    case (Suc k')
    with px have "pixels s' = rotate k (rotate1 pattern)" by (simp add: p)
    then show ?thesis by (simp add: rotate1_rotate_swap)
  qed
  with step show ?case by simp
qed

lemma white_rotate_4:
  assumes "strip_ok s" "strip_led_count s = 4"
  shows "\<exists>s'. white_rotate s (Some (int k)) delay = (None, s') \<and>
     (0 < k \<longrightarrow>
        pixels s' = rotate k [Color 255 255 255, Color 0 0 0, Color 0 0 0, Color 0 0 0])"
proof -
  let ?pattern = "[Color 255 255 255, Color 0 0 0, Color 0 0 0, Color 0 0 0]"
  have pat: "[Color 255 255 255] @ py_repeat (Color 0 0 0) (4 - 1) = ?pattern"
    by (simp add: py_repeat_def numeral_3_eq_3)
  have wr: "white_rotate s (Some (int k)) delay = rotate_loop k (int 4) s ?pattern"
    using pat by (simp add: white_rotate_def Strip_num_pixels_def assms(2))
  have "\<exists>s'. rotate_loop k (int 4) s ?pattern = (None, s') \<and>
      (0 < k \<longrightarrow> pixels s' = rotate k ?pattern)"
    using assms by (intro rotate_loop_result) (simp_all add: valid_color_def)
  then show ?thesis by (simp only: wr)
qed

lemma rotate_pattern_4:
  "rotate k [w, z, z, z] = (replicate 4 z)[(4 - k mod 4) mod 4 := w]"
proof -
  have r: "rotate k [w, z, z, z] = rotate (k mod 4) [w, z, z, z]"
    using rotate_conv_mod [of k "[w, z, z, z]"] by simp
  have rep: "replicate 4 z = [z, z, z, z]" by (simp add: numeral_eq_Suc)
  have r1: "rotate 1 [w, z, z, z] = [z, z, z, w]" by simp
  have r2: "rotate 2 [w, z, z, z] = [z, z, w, z]" by (simp add: numeral_2_eq_2)
  have r3: "rotate 3 [w, z, z, z] = [z, w, z, z]" by (simp add: numeral_3_eq_3)
  have u1: "[z, z, z, z][1 := w] = [z, w, z, z]" by simp
  have u2: "[z, z, z, z][2 := w] = [z, z, w, z]" by (simp add: numeral_2_eq_2)
  have u3: "[z, z, z, z][3 := w] = [z, z, z, w]" by (simp add: numeral_3_eq_3)
  consider "k mod 4 = 0" | "k mod 4 = 1" | "k mod 4 = 2" | "k mod 4 = 3" by linarith
  then show ?thesis
  proof cases
    case 1
    then show ?thesis unfolding r rep by simp
  next
    case 2
    then show ?thesis unfolding r rep by (simp add: r1 u3)
  next
    case 3
    then show ?thesis unfolding r rep by (simp add: r2 u2)
  next
    case 4
    then show ?thesis unfolding r rep by (simp add: r3 u1)
  qed
qed

lemma init_4: "WS2812SpiDriver_init 0 0 4 = Inr (projr (WS2812SpiDriver_init 0 0 4))"
  by (simp add: WS2812SpiDriver_init_def np_zeros_def np_full_def assign_from_def PREAMBLE_def)

lemma show_sends:
  assumes "strip_ok s" "list_all valid_color (pixels s)"
  shows "\<exists>buf. show_buffer s = Inr buf \<and>
     Strip_show s =
       (None, s\<lparr>backend := (backend s)
          \<lparr>buffer := replicate PREAMBLE 0 @ symbols (unpackbits (ravel buf)),
           sent := sent (backend s) @ [replicate PREAMBLE 0 @ symbols (unpackbits (ravel buf))]\<rparr>\<rparr>)"
proof -
  from pixel_rows_shape [OF assms(2), of "brightness s"] obtain rows where
    rows: "pixel_rows (brightness s) (pixels s) = Inr rows"
      "length (concat rows) = length (pixels s) * 3"
    by blast
  let ?buf = "map (map to_uint8) rows"
  have buf: "show_buffer s = Inr ?buf" by (simp add: show_buffer_def rows(1))
  from assms(1) have ok: "driver_ok (backend s)"
    and n: "nat (led_count (backend s)) = length (pixels s)"
    by (auto simp: strip_ok_def)
  have "length (ravel ?buf) = nat (led_count (backend s)) * 3"
    by (simp add: ravel_def length_concat_map_map rows(2) n)
  from write_match [OF ok this]
  have "Strip_show s =
      (None, s\<lparr>backend := (backend s)
         \<lparr>buffer := replicate PREAMBLE 0 @ symbols (unpackbits (ravel ?buf)),
          sent := sent (backend s) @ [replicate PREAMBLE 0 @ symbols (unpackbits (ravel ?buf))]\<rparr>\<rparr>)"
    by (simp add: show_unfold buf)
  with buf show ?thesis by blast
qed

lemma show_buffer_cong:
  "brightness t = brightness s \<Longrightarrow> pixels t = pixels s \<Longrightarrow> show_buffer t = show_buffer s"
  by (simp add: show_buffer_def)

lemma rotate_loop_trace:
  assumes "strip_ok s" "strip_led_count s = int m" "0 < m"
    and "length pattern = m" "list_all valid_color pattern"
  shows "\<exists>s' fs. rotate_loop k (int m) s pattern = (None, s') \<and>
     brightness s' = brightness s \<and>
     (0 < k \<longrightarrow> pixels s' = rotate k pattern) \<and>
     sent (backend s') = sent (backend s) @ fs \<and> length fs = k \<and>
     (\<forall>i<k. \<exists>buf. show_buffer (s\<lparr>pixels := rotate (Suc i) pattern\<rparr>) = Inr buf \<and>
        fs ! i = replicate PREAMBLE 0 @ symbols (unpackbits (ravel buf)))"
  using assms(1,2,4,5)
proof (induction k arbitrary: s pattern)
  case 0
  then show ?case by simp
next
  case (Suc k)
  from Suc.prems(3) assms(3) obtain first rest where p: "pattern = first # rest"
    by (cases pattern) auto
  let ?p = "rest @ [first]"
  have rot1: "?p = rotate1 pattern" by (simp add: p)
  have pop: "pop0 pattern = Inr (first, rest)" by (simp add: pop0_def p)
  have lenp: "length ?p = m" using Suc.prems(3) p by simp
  have validp: "list_all valid_color ?p" using Suc.prems(4) p by simp
  have lens: "length (pixels s) = m" using Suc.prems(1,2) by (simp add: strip_ok_def)
  let ?s1 = "s\<lparr>pixels := ?p\<rparr>"
  have sp: "set_pattern s ?p [0..<m] = (None, ?s1)"
    using lens lenp by (rule set_pattern_all)
  have ok1: "strip_ok ?s1" using Suc.prems(1,2) lenp by (simp add: strip_ok_def)
  have valid1: "list_all valid_color (pixels ?s1)" using validp by simp
  from show_sends [OF ok1 valid1] obtain buf0 where
    buf0: "show_buffer ?s1 = Inr buf0"
    and sh: "Strip_show ?s1 =
      (None, ?s1\<lparr>backend := (backend ?s1)
         \<lparr>buffer := replicate PREAMBLE 0 @ symbols (unpackbits (ravel buf0)),
          sent := sent (backend ?s1) @ [replicate PREAMBLE 0 @ symbols (unpackbits (ravel buf0))]\<rparr>\<rparr>)"
    by blast
  let ?f0 = "replicate PREAMBLE 0 @ symbols (unpackbits (ravel buf0))"
  let ?s2 = "?s1\<lparr>backend := (backend ?s1)\<lparr>buffer := ?f0, sent := sent (backend ?s1) @ [?f0]\<rparr>\<rparr>"
  have ok2: "strip_ok ?s2" using show_ok [OF ok1] sh by simp
  have lc2: "strip_led_count ?s2 = int m" using Suc.prems(2) by simp
  from Suc.IH [OF ok2 lc2 lenp validp] obtain s' fs where
    rec: "rotate_loop k (int m) ?s2 ?p = (None, s')"
    and br: "brightness s' = brightness ?s2"
    and px: "0 < k \<longrightarrow> pixels s' = rotate k ?p"
    and snt: "sent (backend s') = sent (backend ?s2) @ fs"
    and len: "length fs = k"
    and each: "\<forall>i<k. \<exists>buf. show_buffer (?s2\<lparr>pixels := rotate (Suc i) ?p\<rparr>) = Inr buf \<and>
        fs ! i = replicate PREAMBLE 0 @ symbols (unpackbits (ravel buf))"
    by blast
  have step: "rotate_loop (Suc k) (int m) s pattern = (None, s')"
    using rec by (simp add: pop sp sh)
  have pixels': "pixels s' = rotate (Suc k) pattern"
  proof (cases k)
    case 0
    with rec have "s' = ?s2" by simp
    then show ?thesis using 0 by (simp add: p)
  next
    case (Suc k')
    with px have "pixels s' = rotate k (rotate1 pattern)" by (simp add: p)
    then show ?thesis by (simp add: rotate1_rotate_swap)
  qed
  have br': "brightness s' = brightness s" using br by simp
  have snt': "sent (backend s') = sent (backend s) @ (?f0 # fs)" using snt by simp
  have each': "\<exists>buf. show_buffer (s\<lparr>pixels := rotate (Suc i) pattern\<rparr>) = Inr buf \<and>
      (?f0 # fs) ! i = replicate PREAMBLE 0 @ symbols (unpackbits (ravel buf))"
    if i: "i < Suc k" for i
  proof (cases i)
    case 0
    have "show_buffer (s\<lparr>pixels := rotate (Suc 0) pattern\<rparr>) = Inr buf0"
      using buf0 by (simp add: p)
    then show ?thesis using 0 by simp
  next
    case (Suc j)
    with i have "j < k" by simp
    with each obtain buf where
      b: "show_buffer (?s2\<lparr>pixels := rotate (Suc j) ?p\<rparr>) = Inr buf"
        "fs ! j = replicate PREAMBLE 0 @ symbols (unpackbits (ravel buf))"
      by blast
    have "rotate (Suc j) ?p = rotate (Suc (Suc j)) pattern"
      unfolding rot1 by (simp add: rotate1_rotate_swap)
    moreover have "show_buffer (?s2\<lparr>pixels := rotate (Suc j) ?p\<rparr>) =
        show_buffer (s\<lparr>pixels := rotate (Suc j) ?p\<rparr>)"
      by (rule show_buffer_cong) simp_all
    ultimately have "show_buffer (s\<lparr>pixels := rotate (Suc i) pattern\<rparr>) = Inr buf"
      using b(1) Suc by simp
    then show ?thesis using b(2) Suc by simp
  qed
  show ?case
    by (rule exI [of _ s'], rule exI [of _ "?f0 # fs"])
      (use step br' pixels' snt' len each' in simp)
qed

lemma pixel_row_off: "pixel_row (Fin x) (Color 0 0 0) = Inr [Fin 0, Fin 0, Fin 0]"
  by (simp add: pixel_row_def int_times_float_def int_to_float_def fl_round_zero)

lemma pixel_row_white:
  "pixel_row (Fin x) (Color 255 255 255) =
     Inr [float_mul (Fin 255) (Fin x), float_mul (Fin 255) (Fin x), float_mul (Fin 255) (Fin x)]"
proof -
  have "int_to_float 255 = Inr (Fin 255)"
    using int_to_float_small [of 255] by simp
  then show ?thesis by (simp add: pixel_row_def int_times_float_def)
qed

lemma show_buffer_lit:
  assumes "brightness s = Fin x" "float_mul (Fin 255) (Fin x) = Fin y" "j < 4"
  shows "show_buffer (s\<lparr>pixels := (replicate 4 (Color 0 0 0))[j := Color 255 255 255]\<rparr>) =
     Inr ((replicate 4 [0, 0, 0])[j := replicate 3 (word_of_int (rat_trunc y))])"
proof -
  have rep: "replicate 4 z = [z, z, z, z]" for z :: 'a by (simp add: numeral_eq_Suc)
  have rep3: "replicate 3 z = [z, z, z]" for z :: 'a by (simp add: numeral_eq_Suc)
  have u2: "[z, z, z, z][2 := w] = [z, z, w, z]" for z w :: 'a by (simp add: numeral_2_eq_2)
  have u3: "[z, z, z, z][3 := w] = [z, z, z, w]" for z w :: 'a by (simp add: numeral_3_eq_3)
  have y: "fl_round (255 * x) = Fin y" using assms(2) by simp
  have zero: "rat_trunc 0 = 0" by (simp add: rat_trunc_def)
  note facts = show_buffer_def assms(1) y zero pixel_row_off pixel_row_white
  from assms(3) consider "j = 0" | "j = 1" | "j = 2" | "j = 3" by linarith
  then show ?thesis
  proof cases
    case 1
    then show ?thesis unfolding rep rep3
      by (simp add: facts)
  next
    case 2
    then show ?thesis unfolding rep rep3
      by (simp add: facts)
  next
    case 3
    then show ?thesis unfolding rep rep3 3 u2
      by (simp add: facts)
  next
    case 4
    then show ?thesis unfolding rep rep3 4 u3
      by (simp add: facts)
  qed
qed

lemma white_rotate_4_trace:
  assumes "strip_ok s" "strip_led_count s = 4"
  shows "\<exists>s' fs. white_rotate s (Some (int k)) delay = (None, s') \<and>
     (0 < k \<longrightarrow> pixels s' =
        (replicate 4 (Color 0 0 0))[(4 - k mod 4) mod 4 := Color 255 255 255]) \<and>
     sent (backend s') = sent (backend s) @ fs \<and> length fs = k \<and>
     (\<forall>i<k. \<exists>buf.
        show_buffer (s\<lparr>pixels :=
          (replicate 4 (Color 0 0 0))[(4 - Suc i mod 4) mod 4 := Color 255 255 255]\<rparr>) = Inr buf \<and>
        fs ! i = replicate 42 0 @ symbols (unpackbits (ravel buf)))"
proof -
  let ?pattern = "[Color 255 255 255, Color 0 0 0, Color 0 0 0, Color 0 0 0]"
  have pat: "[Color 255 255 255] @ py_repeat (Color 0 0 0) (4 - 1) = ?pattern"
    by (simp add: py_repeat_def numeral_3_eq_3)
  have wr: "white_rotate s (Some (int k)) delay = rotate_loop k (int 4) s ?pattern"
    using pat by (simp add: white_rotate_def Strip_num_pixels_def assms(2))
  have "\<exists>s' fs. rotate_loop k (int 4) s ?pattern = (None, s') \<and>
     brightness s' = brightness s \<and>
     (0 < k \<longrightarrow> pixels s' = rotate k ?pattern) \<and>
     sent (backend s') = sent (backend s) @ fs \<and> length fs = k \<and>
     (\<forall>i<k. \<exists>buf. show_buffer (s\<lparr>pixels := rotate (Suc i) ?pattern\<rparr>) = Inr buf \<and>
        fs ! i = replicate PREAMBLE 0 @ symbols (unpackbits (ravel buf)))"
    using assms by (intro rotate_loop_trace) (simp_all add: valid_color_def)
  then show ?thesis
    unfolding wr rotate_pattern_4 PREAMBLE_def by blast
qed

text \<open>
  Claim C8, as amended.  On a strip of four LEDs, in any state it can reach and for any
  delay, \<open>white_rotate\<close> with \<open>k \<ge> 1\<close> iterations raises nothing and calls \<open>show\<close> exactly
  \<open>k\<close> times: it appends \<open>k\<close> frames to what the driver has sent.  The buffer observed at
  the \<open>i\<close>-th \<open>show\<close>, for every \<open>i\<close> from 1 to \<open>k\<close>, has exactly one white pixel, at index
  \<open>(4 - i mod 4) mod 4\<close>, and the other three pixels off: when the brightness is a number
  between 0 and 1, the array \<open>show\<close> builds from that buffer is all zero except for row
  \<open>(4 - i mod 4) mod 4\<close>, which holds three times the byte of 255 times the brightness,
  truncated, and the \<open>i\<close>-th frame sent is the 42 zero bytes followed by the symbols of that
  array.  The pixel buffer left behind is the one of the \<open>k\<close>-th \<open>show\<close>.  Each step moves
  the head of the pattern to its end, so the lit pixel moves toward lower indices:
  3, 2, 1, 0, 3, ...  The claim as stated has it at \<open>k mod 4\<close>; the counterexample below is
  the first step.
\<close>

theorem white_rotate_lit_index:
  assumes "WS2812SpiDriver_init bus dev 4 = Inr d"
    and "s = strip_run (get_strip d) cs"
    and "0 < k"
  shows "\<exists>frames.
     fst (white_rotate s (Some (int k)) delay) = None \<and>
     pixels (snd (white_rotate s (Some (int k)) delay)) =
       (replicate 4 (Color 0 0 0))[(4 - k mod 4) mod 4 := Color 255 255 255] \<and>
     sent (backend (snd (white_rotate s (Some (int k)) delay))) = sent (backend s) @ frames \<and>
     length frames = k \<and>
     (\<forall>x. brightness s = Fin x \<and> 0 \<le> x \<and> x \<le> 1 \<longrightarrow>
        (\<exists>y. float_mul (Fin 255) (Fin x) = Fin y \<and> 0 \<le> y \<and> y \<le> 255 \<and>
           (\<forall>i<k.
              show_buffer (s\<lparr>pixels :=
                (replicate 4 (Color 0 0 0))[(4 - Suc i mod 4) mod 4 := Color 255 255 255]\<rparr>) =
                Inr ((replicate 4 [0, 0, 0])
                  [(4 - Suc i mod 4) mod 4 := replicate 3 (word_of_int (rat_trunc y))]) \<and>
              frames ! i = replicate 42 0 @ symbols (unpackbits (ravel
                ((replicate 4 [0, 0, 0])
                  [(4 - Suc i mod 4) mod 4 := replicate 3 (word_of_int (rat_trunc y))]))))))"
proof -
  from reachable_strip [OF assms(1,2)] have ok: "strip_ok s" "strip_led_count s = 4"
    by simp_all
  from white_rotate_4_trace [OF ok, of k delay] assms(3) obtain s' fs where
    wr: "white_rotate s (Some (int k)) delay = (None, s')"
    and px: "pixels s' = (replicate 4 (Color 0 0 0))[(4 - k mod 4) mod 4 := Color 255 255 255]"
    and snt: "sent (backend s') = sent (backend s) @ fs"
    and len: "length fs = k"
    and each: "\<forall>i<k. \<exists>buf.
        show_buffer (s\<lparr>pixels :=
          (replicate 4 (Color 0 0 0))[(4 - Suc i mod 4) mod 4 := Color 255 255 255]\<rparr>) = Inr buf \<and>
        fs ! i = replicate 42 0 @ symbols (unpackbits (ravel buf))"
    by auto
  have bytes: "\<exists>y. float_mul (Fin 255) (Fin x) = Fin y \<and> 0 \<le> y \<and> y \<le> 255 \<and>
      (\<forall>i<k.
         show_buffer (s\<lparr>pixels :=
           (replicate 4 (Color 0 0 0))[(4 - Suc i mod 4) mod 4 := Color 255 255 255]\<rparr>) =
           Inr ((replicate 4 [0, 0, 0])
             [(4 - Suc i mod 4) mod 4 := replicate 3 (word_of_int (rat_trunc y))]) \<and>
         fs ! i = replicate 42 0 @ symbols (unpackbits (ravel
           ((replicate 4 [0, 0, 0])
             [(4 - Suc i mod 4) mod 4 := replicate 3 (word_of_int (rat_trunc y))]))))"
    if x: "brightness s = Fin x \<and> 0 \<le> x \<and> x \<le> 1" for x
  proof -
    from x have b: "brightness s = Fin x" and x0: "0 \<le> x" and x1: "x \<le> 1" by simp_all
    from int_times_float_valid [of 255 x] x0 x1 obtain y where
      y: "float_mul (Fin (of_int 255)) (Fin x) = Fin y" "0 \<le> y" "y \<le> 255"
      by auto
    then have y': "float_mul (Fin 255) (Fin x) = Fin y" by simp
    have "show_buffer (s\<lparr>pixels :=
          (replicate 4 (Color 0 0 0))[(4 - Suc i mod 4) mod 4 := Color 255 255 255]\<rparr>) =
          Inr ((replicate 4 [0, 0, 0])
            [(4 - Suc i mod 4) mod 4 := replicate 3 (word_of_int (rat_trunc y))]) \<and>
        fs ! i = replicate 42 0 @ symbols (unpackbits (ravel
          ((replicate 4 [0, 0, 0])
            [(4 - Suc i mod 4) mod 4 := replicate 3 (word_of_int (rat_trunc y))])))"
      if i: "i < k" for i
    proof -
      have j: "(4 - Suc i mod 4) mod 4 < 4" by simp
      from each i obtain buf where
        buf: "show_buffer (s\<lparr>pixels :=
          (replicate 4 (Color 0 0 0))[(4 - Suc i mod 4) mod 4 := Color 255 255 255]\<rparr>) = Inr buf"
        and f: "fs ! i = replicate 42 0 @ symbols (unpackbits (ravel buf))"
        by blast
      note lit = show_buffer_lit [OF b y' j]
      with buf have "buf = (replicate 4 [0, 0, 0])
          [(4 - Suc i mod 4) mod 4 := replicate 3 (word_of_int (rat_trunc y))]"
        by simp
      with f lit show ?thesis by simp
    qed
    with y' y(2,3) show ?thesis by blast
  qed
  show ?thesis
    by (rule exI [of _ fs]) (use wr px snt len bytes in simp)
qed

lemma half_strip:
  "brightness (strip_run (get_strip (projr (WS2812SpiDriver_init 0 0 4)))
      [SetBrightness (Fin (1 / 2))]) = Fin (1 / 2)"
  "sent (backend (strip_run (get_strip (projr (WS2812SpiDriver_init 0 0 4)))
      [SetBrightness (Fin (1 / 2))])) = []"
  using init_ok [OF init_4]
  by (simp_all add: strip_run_def set_brightness_finite get_strip_def Strip_init_def Let_def)

lemma half_white: "float_mul (Fin 255) (Fin (1 / 2)) = Fin (255 / 2)" "rat_trunc (255 / 2) = 127"
  by code_simp+

lemma two_elements: "length xs = 2 \<Longrightarrow> xs = [xs ! 0, xs ! 1]"
  by (auto simp: numeral_2_eq_2 length_Suc_conv)

theorem white_rotate_lit_index_witness:
  "WS2812SpiDriver_init 0 0 4 = Inr (projr (WS2812SpiDriver_init 0 0 4)) \<and> (0::nat) < 2 \<and>
   brightness (strip_run (get_strip (projr (WS2812SpiDriver_init 0 0 4)))
      [SetBrightness (Fin (1 / 2))]) = Fin (1 / 2) \<and>
   fst (white_rotate
     (strip_run (get_strip (projr (WS2812SpiDriver_init 0 0 4))) [SetBrightness (Fin (1 / 2))])
     (Some (int 2)) (Fin 0)) = None \<and>
   pixels (snd (white_rotate
     (strip_run (get_strip (projr (WS2812SpiDriver_init 0 0 4))) [SetBrightness (Fin (1 / 2))])
     (Some (int 2)) (Fin 0))) =
     [Color 0 0 0, Color 0 0 0, Color 255 255 255, Color 0 0 0] \<and>
   sent (backend (snd (white_rotate
     (strip_run (get_strip (projr (WS2812SpiDriver_init 0 0 4))) [SetBrightness (Fin (1 / 2))])
     (Some (int 2)) (Fin 0)))) =
     [replicate 42 0 @ symbols (unpackbits (ravel
        [[0, 0, 0], [0, 0, 0], [0, 0, 0], [127, 127, 127]])),
      replicate 42 0 @ symbols (unpackbits (ravel
        [[0, 0, 0], [0, 0, 0], [127, 127, 127], [0, 0, 0]]))]"
proof -
  let ?s = "strip_run (get_strip (projr (WS2812SpiDriver_init 0 0 4)))
      [SetBrightness (Fin (1 / 2))]"
  let ?r = "white_rotate ?s (Some (int 2)) (Fin 0)"
  have k: "(0::nat) < 2" by simp
  have rep: "replicate 4 z = [z, z, z, z]" for z :: 'a by (simp add: numeral_eq_Suc)
  have rep3: "replicate 3 z = [z, z, z]" for z :: 'a by (simp add: numeral_eq_Suc)
  have u2: "[z, z, z, z][2 := w] = [z, z, w, z]" for z w :: 'a by (simp add: numeral_2_eq_2)
  have u3: "[z, z, z, z][3 := w] = [z, z, z, w]" for z w :: 'a by (simp add: numeral_3_eq_3)
  have i0: "(4 - Suc 0 mod 4) mod 4 = (3::nat)" by simp
  have i1: "(4 - Suc 1 mod 4) mod 4 = (2::nat)" by simp
  have i2: "(4 - 2 mod 4) mod 4 = (2::nat)" by simp
  from white_rotate_lit_index [OF init_4 refl k, of "[SetBrightness (Fin (1 / 2))]" "Fin 0"]
  obtain frames where
    none: "fst ?r = None"
    and px: "pixels (snd ?r) =
      (replicate 4 (Color 0 0 0))[(4 - 2 mod 4) mod 4 := Color 255 255 255]"
    and snt: "sent (backend (snd ?r)) = sent (backend ?s) @ frames"
    and len: "length frames = 2"
    and bytes: "\<forall>x. brightness ?s = Fin x \<and> 0 \<le> x \<and> x \<le> 1 \<longrightarrow>
        (\<exists>y. float_mul (Fin 255) (Fin x) = Fin y \<and> 0 \<le> y \<and> y \<le> 255 \<and>
           (\<forall>i<2.
              show_buffer (?s\<lparr>pixels :=
                (replicate 4 (Color 0 0 0))[(4 - Suc i mod 4) mod 4 := Color 255 255 255]\<rparr>) =
                Inr ((replicate 4 [0, 0, 0])
                  [(4 - Suc i mod 4) mod 4 := replicate 3 (word_of_int (rat_trunc y))]) \<and>
              frames ! i = replicate 42 0 @ symbols (unpackbits (ravel
                ((replicate 4 [0, 0, 0])
                  [(4 - Suc i mod 4) mod 4 := replicate 3 (word_of_int (rat_trunc y))])))))"
    by blast
  from bytes [rule_format, of "1 / 2"] half_strip(1) obtain y where
    y: "float_mul (Fin 255) (Fin (1 / 2)) = Fin y"
    and fr: "\<forall>i<2. frames ! i = replicate 42 0 @ symbols (unpackbits (ravel
        ((replicate 4 [0, 0, 0])
           [(4 - Suc i mod 4) mod 4 := replicate 3 (word_of_int (rat_trunc y :: int) :: u8)])))"
    by auto
  from y have "y = 255 / 2" by (simp only: half_white(1) pyfloat.inject)
  then have t: "rat_trunc y = 127" by (simp only: half_white(2))
  have f0: "frames ! 0 = replicate 42 0 @ symbols (unpackbits (ravel
      [[0, 0, 0], [0, 0, 0], [0, 0, 0], [127, 127, 127]]))"
    using fr [rule_format, of 0] unfolding t i0 rep rep3 u3 by simp
  have f1: "frames ! 1 = replicate 42 0 @ symbols (unpackbits (ravel
      [[0, 0, 0], [0, 0, 0], [127, 127, 127], [0, 0, 0]]))"
    using fr [rule_format, of 1] unfolding t i1 rep rep3 u2 by simp
  have frames: "frames =
      [replicate 42 0 @ symbols (unpackbits (ravel
         [[0, 0, 0], [0, 0, 0], [0, 0, 0], [127, 127, 127]])),
       replicate 42 0 @ symbols (unpackbits (ravel
         [[0, 0, 0], [0, 0, 0], [127, 127, 127], [0, 0, 0]]))]"
    using two_elements [OF len] f0 f1 by simp
  have px': "pixels (snd ?r) = [Color 0 0 0, Color 0 0 0, Color 255 255 255, Color 0 0 0]"
    using px unfolding i2 rep u2 .
  have snt': "sent (backend (snd ?r)) = frames"
    using snt by (simp only: half_strip(2) append_Nil)
  show ?thesis
    using init_4 k half_strip(1) none px' snt' unfolding frames by (intro conjI)
qed

theorem white_rotate_direction_counterexample:
  "pixels (snd (white_rotate (get_strip (projr (WS2812SpiDriver_init 0 0 4))) (Some 1) (Fin 0)))
     ! (1 mod 4) \<noteq> Color 255 255 255 \<and>
   pixels (snd (white_rotate (get_strip (projr (WS2812SpiDriver_init 0 0 4))) (Some 1) (Fin 0))) =
     [Color 0 0 0, Color 0 0 0, Color 0 0 0, Color 255 255 255]"
proof -
  let ?s = "get_strip (projr (WS2812SpiDriver_init 0 0 4))"
  have run: "?s = strip_run ?s []" by (simp add: strip_run_def)
  from reachable_strip [OF init_4 run] have "strip_ok ?s" "strip_led_count ?s = 4"
    by simp_all
  from white_rotate_4 [OF this, of 1 "Fin 0"] obtain s' where
    "white_rotate ?s (Some 1) (Fin 0) = (None, s')"
    "pixels s' = rotate 1 [Color 255 255 255, Color 0 0 0, Color 0 0 0, Color 0 0 0]"
    by auto
  then have px: "pixels (snd (white_rotate ?s (Some 1) (Fin 0))) =
      [Color 0 0 0, Color 0 0 0, Color 0 0 0, Color 255 255 255]"
    by simp
  have "[Color 0 0 0, Color 0 0 0, Color 0 0 0, Color 255 255 255] ! (1 mod 4)
      \<noteq> Color 255 255 255"
    by simp
  with px show ?thesis by (simp only: simp_thms)
qed

end
